theory Spec2Isabelle
  imports Main
begin

section \<open>Data model of \<open>stable_marriage.hpp\<close>\<close>

text \<open>
  The graph is the \<open>adjacency_list<listS, vecS, directedS>\<close> of the test and the example:
  a vertex descriptor is its index, \<open>g ! u\<close> lists the targets of the out-edges of \<open>u\<close> in
  insertion order, and \<open>vertex_index_map\<close> is the identity (it is left out of the model).
  A relation (edge descriptor) is the pair of its source and its target, so the model
  covers graphs with at most one relation per ordered pair of people, as the test builds
  them. \<open>add_edge\<close> on a \<open>vecS\<close> graph grows the vertex set, so every target is a vertex:
  \<open>wf_graph\<close>.

  Preference scores are \<open>double\<close> in the source; the model takes them in \<open>int\<close> (the scores
  of the test and of the example are integers), with the built-in comparison of line 228 as
  the order of \<open>int\<close>. Property maps are total functions.
\<close>

datatype default_color_type =
  white_color | gray_color | green_color | red_color | black_color

type_synonym person_t = nat
type_synonym relation_t = "nat \<times> nat"
type_synonym graph = "nat list list"
type_synonym preference_map = "relation_t \<Rightarrow> int"
type_synonym compare_function = "int \<Rightarrow> int \<Rightarrow> bool"
type_synonym color_map = "person_t \<Rightarrow> default_color_type"

definition vertices :: "graph \<Rightarrow> person_t list" where
  "vertices g = [0..<length g]"

definition adjacent :: "graph \<Rightarrow> person_t \<Rightarrow> person_t list" where
  "adjacent g u = (if u < length g then g ! u else [])"

definition out_edges :: "graph \<Rightarrow> person_t \<Rightarrow> relation_t list" where
  "out_edges g u = map (Pair u) (adjacent g u)"

definition edges :: "graph \<Rightarrow> relation_t list" where
  "edges g = concat (map (out_edges g) (vertices g))"

fun source :: "relation_t \<Rightarrow> person_t" where
  "source (u, v) = u"

fun target :: "relation_t \<Rightarrow> person_t" where
  "target (u, v) = v"

text \<open>\<open>edge(u, v, g)\<close> returns the descriptor and whether the edge exists.\<close>

definition edge :: "person_t \<Rightarrow> person_t \<Rightarrow> graph \<Rightarrow> relation_t \<times> bool" where
  "edge u v g = ((u, v), v \<in> set (adjacent g u))"

definition wf_graph :: "graph \<Rightarrow> bool" where
  "wf_graph g = list_all (\<lambda>vs. distinct vs \<and> list_all (\<lambda>v. v < length g) vs) g"

section \<open>The state of one run\<close>

text \<open>
  The locals of \<open>stable_marriage\<close> and the caller's \<open>engaged_to_map\<close>, which the function
  writes in place. \<open>men_iterator\<close> is the range from the iterator to \<open>men_iterator_end\<close>:
  the vertices not yet passed, so \<open>men_iterator == men_iterator_end\<close> is \<open>[]\<close> and
  \<open>*men_iterator\<close> is the head.
\<close>

record state =
  men_iterator :: "person_t list"
  every_man_is_engaged :: bool
  free_map :: "person_t \<Rightarrow> bool"
  has_proposed_map :: "relation_t \<Rightarrow> bool"
  engaged_to_map :: "relation_t \<Rightarrow> bool"

text \<open>Lines 113-143: everybody free, every relation of the graph neither proposed nor engaged.\<close>

definition initial_state :: "graph \<Rightarrow> (relation_t \<Rightarrow> bool) \<Rightarrow> state" where
  "initial_state g engaged =
     \<lparr> men_iterator = vertices g,
       every_man_is_engaged = False,
       free_map = (\<lambda>v. True),
       has_proposed_map = (\<lambda>e. False),
       engaged_to_map = foldl (\<lambda>m e. m(e := False)) engaged (edges g) \<rparr>"

section \<open>The main loop\<close>

text \<open>Lines 148-153: skip the people who are not black or not free.\<close>

definition next_free_man :: "color_map \<Rightarrow> (person_t \<Rightarrow> bool) \<Rightarrow> person_t list \<Rightarrow> person_t list" where
  "next_free_man color fr it =
     dropWhile (\<lambda>v. \<not> (color v = black_color) \<or> \<not> fr v) it"

text \<open>
  Lines 165-191: the scan of the man's out-edges. The accumulator is
  \<open>current_preference\<close> and \<open>current_prefered_relation\<close>; the relation is \<open>None\<close> while
  \<open>man_may_propose\<close> is false, and \<open>current_prefered_woman\<close> is its target.
\<close>

fun best_woman ::
  "graph \<Rightarrow> preference_map \<Rightarrow> compare_function \<Rightarrow> (relation_t \<Rightarrow> bool) \<Rightarrow> person_t \<Rightarrow>
   relation_t list \<Rightarrow> int \<times> relation_t option \<Rightarrow> int \<times> relation_t option" where
  "best_woman g pref compare hp man [] acc = acc"
| "best_woman g pref compare hp man (r # rs) (current_preference, rel) =
     (if \<not> hp r \<and> snd (edge (target r) man g) \<and> compare (pref r) current_preference
      then best_woman g pref compare hp man rs (pref r, Some r)
      else best_woman g pref compare hp man rs (current_preference, rel))"

definition current_prefered_relation ::
  "graph \<Rightarrow> preference_map \<Rightarrow> compare_function \<Rightarrow> (relation_t \<Rightarrow> bool) \<Rightarrow> person_t \<Rightarrow>
   relation_t option" where
  "current_prefered_relation g pref compare hp man =
     snd (best_woman g pref compare hp man (out_edges g man) (0, None))"

text \<open>
  Lines 196-260, for the free man \<open>man\<close>. \<open>None\<close> is undefined behaviour: line 224
  dereferences the end iterator when the woman has no engaged out-edge, and line 248
  writes through the descriptor of an edge that does not exist.
\<close>

definition propose ::
  "graph \<Rightarrow> preference_map \<Rightarrow> compare_function \<Rightarrow> person_t \<Rightarrow> state \<Rightarrow> state option" where
  "propose g pref compare man s =
     (case current_prefered_relation g pref compare (has_proposed_map s) man of
        None \<Rightarrow> Some (s\<lparr>free_map := (free_map s)(man := False)\<rparr>)
      | Some rel \<Rightarrow>
          let woman = target rel;
              s1 = s\<lparr>has_proposed_map := (has_proposed_map s)(rel := True)\<rparr>
          in if free_map s1 woman then
               Some (s1\<lparr>engaged_to_map :=
                          (engaged_to_map s1)(rel := True, fst (edge woman man g) := True),
                        free_map := (free_map s1)(woman := False, man := False)\<rparr>)
             else
               (case find (engaged_to_map s1) (out_edges g woman) of
                  None \<Rightarrow> None
                | Some first \<Rightarrow>
                    let prev_man = target first in
                    if pref (fst (edge woman man g)) > pref (fst (edge woman prev_man g)) then
                      (if snd (edge prev_man woman g) then
                         Some (s1\<lparr>engaged_to_map :=
                                    (engaged_to_map s1)
                                      (fst (edge man woman g) := True,
                                       fst (edge woman man g) := True,
                                       fst (edge woman prev_man g) := False,
                                       fst (edge prev_man woman g) := False),
                                  free_map :=
                                    (free_map s1)(woman := False, man := False, prev_man := True)\<rparr>)
                       else None)
                    else Some s1))"

text \<open>Lines 146-261: one iteration of the \<open>while (!every_man_is_engaged)\<close> loop.\<close>

definition iteration ::
  "graph \<Rightarrow> preference_map \<Rightarrow> compare_function \<Rightarrow> color_map \<Rightarrow> state \<Rightarrow> state option" where
  "iteration g pref compare color s =
     (case next_free_man color (free_map s) (men_iterator s) of
        [] \<Rightarrow> Some (s\<lparr>men_iterator := [], every_man_is_engaged := True\<rparr>)
      | man # rest \<Rightarrow> propose g pref compare man (s\<lparr>men_iterator := man # rest\<rparr>))"

text \<open>
  Termination measure of the main loop: the relations out of black people not yet proposed on,
  the free black people from the iterator on, and the loop flag.
\<close>

definition unproposed :: "graph \<Rightarrow> color_map \<Rightarrow> state \<Rightarrow> nat" where
  "unproposed g color s =
     length (filter (\<lambda>e. color (source e) = black_color \<and> \<not> has_proposed_map s e) (edges g))"

definition free_men_ahead :: "color_map \<Rightarrow> state \<Rightarrow> nat" where
  "free_men_ahead color s =
     length (filter (\<lambda>v. color v = black_color \<and> free_map s v) (men_iterator s))"

text \<open>Lines 144-262: \<open>while (!every_man_is_engaged)\<close>.\<close>

function main_loop ::
  "graph \<Rightarrow> preference_map \<Rightarrow> compare_function \<Rightarrow> color_map \<Rightarrow> state \<Rightarrow> state option" where
  "main_loop g pref compare color s =
     (if every_man_is_engaged s then Some s
      else case iteration g pref compare color s of
             None \<Rightarrow> None
           | Some s' \<Rightarrow> main_loop g pref compare color s')"
  by pat_completeness auto

section \<open>The partitioner and the entry point\<close>

text \<open>
  \<open>is_bipartite\<close> of \<open>boost/graph/bipartite.hpp\<close>, which \<open>stable_marriage\<close> calls at line
  101, is not among the sources. The definitions of this section up to \<open>is_bipartite\<close>
  follow the partitioner of the spec (4.1): start from an uncoloured agent, colour it
  side A, colour every neighbour (relations taken as undirected) the opposite side, fail
  when a relation joins two agents of the same side, and colour each component from its
  own seed.
\<close>

text \<open>Modelled from the spec: the other side of the partition (\<open>bipartite.hpp\<close> is missing).\<close>

definition opposite :: "default_color_type \<Rightarrow> default_color_type" where
  "opposite c = (if c = black_color then white_color else black_color)"

text \<open>
  Modelled from the spec: the neighbours of an agent through any adjacent relation, taken
  as undirected (\<open>bipartite.hpp\<close> is missing).
\<close>

definition neighbours :: "graph \<Rightarrow> person_t \<Rightarrow> person_t list" where
  "neighbours g v =
     filter (\<lambda>u. u \<in> set (adjacent g v) \<or> v \<in> set (adjacent g u)) (vertices g)"

text \<open>Modelled from the spec: the number of agents without a label yet (a termination measure).\<close>

definition uncolored :: "graph \<Rightarrow> (person_t \<rightharpoonup> default_color_type) \<Rightarrow> nat" where
  "uncolored g lab = length (filter (\<lambda>u. lab u = None) (vertices g))"

text \<open>
  Modelled from the spec: the depth-first colouring of one component
  (\<open>bipartite.hpp\<close> is missing). The agent on top of the stack is labelled; a neighbour
  with the same label is the failure; otherwise its first unlabelled neighbour gets the
  opposite label and is pushed, and an agent without unlabelled neighbours is popped.
\<close>

function color_component ::
  "graph \<Rightarrow> person_t list \<Rightarrow> (person_t \<rightharpoonup> default_color_type) \<Rightarrow>
   (person_t \<rightharpoonup> default_color_type) option" where
  "color_component g [] lab = Some lab"
| "color_component g (v # todo) lab =
     (case lab v of
        None \<Rightarrow> color_component g todo lab
      | Some c \<Rightarrow>
          if list_ex (\<lambda>u. lab u = Some c) (neighbours g v) then None
          else (case filter (\<lambda>u. lab u = None) (neighbours g v) of
                  [] \<Rightarrow> color_component g todo lab
                | u # us \<Rightarrow> color_component g (u # v # todo) (lab(u \<mapsto> opposite c))))"
  by pat_completeness auto

text \<open>
  Modelled from the spec: every component is coloured from its own seed, the first agent
  of the component in vertex order, which gets side A (\<open>bipartite.hpp\<close> is missing).
\<close>

fun color_all ::
  "graph \<Rightarrow> default_color_type \<Rightarrow> person_t list \<Rightarrow> (person_t \<rightharpoonup> default_color_type) \<Rightarrow>
   (person_t \<rightharpoonup> default_color_type) option" where
  "color_all g side_a [] lab = Some lab"
| "color_all g side_a (v # vs) lab =
     (case lab v of
        Some c \<Rightarrow> color_all g side_a vs lab
      | None \<Rightarrow>
          (case color_component g [v] (lab(v \<mapsto> side_a)) of
             None \<Rightarrow> None
           | Some lab' \<Rightarrow> color_all g side_a vs lab'))"

text \<open>
  Modelled from the spec: the partitioner \<open>is_bipartite\<close> of \<open>boost/graph/bipartite.hpp\<close>,
  which is missing. It returns its verdict and the caller's label storage: on success a
  label is written for every agent; on failure the labels are left as they were (spec 7:
  no partial partitioning is exposed). The spec leaves open which colour side A is, so
  it is the parameter \<open>side_a\<close>.
\<close>

definition is_bipartite ::
  "default_color_type \<Rightarrow> graph \<Rightarrow> color_map \<Rightarrow> bool \<times> color_map" where
  "is_bipartite side_a g color =
     (case color_all g side_a (vertices g) Map.empty of
        None \<Rightarrow> (False, color)
      | Some lab \<Rightarrow> (True, (\<lambda>v. case lab v of Some c \<Rightarrow> c | None \<Rightarrow> color v)))"

text \<open>
  What the caller passes to \<open>stable_marriage\<close> and reads afterwards: the graph (by
  reference) and the three property maps.
\<close>

record memory =
  the_graph :: graph
  the_engaged_to_map :: "relation_t \<Rightarrow> bool"
  the_preference_map :: preference_map
  the_color_map :: color_map

text \<open>
  Lines 94-263. Line 101 calls the partitioner as a statement: its \<open>bool\<close> is dropped, and
  the labels it wrote are the ones the loop reads. The partitioner is a parameter of the
  model; \<open>None\<close> is undefined behaviour in the loop.
\<close>

definition stable_marriage ::
  "(graph \<Rightarrow> color_map \<Rightarrow> bool \<times> color_map) \<Rightarrow> compare_function \<Rightarrow> memory \<Rightarrow> memory option" where
  "stable_marriage partitioner compare m =
     (let g = the_graph m;
          color = snd (partitioner g (the_color_map m))
      in case main_loop g (the_preference_map m) compare color
                (initial_state g (the_engaged_to_map m)) of
           None \<Rightarrow> None
         | Some s \<Rightarrow> Some (m\<lparr>the_engaged_to_map := engaged_to_map s, the_color_map := color\<rparr>))"

text \<open>
  Default-constructed vertex descriptor of a \<open>vecS\<close> graph.
\<close>

definition null_vertex :: person_t where
  "null_vertex = 0"

text \<open>Lines 267-277.\<close>

definition is_engaged :: "person_t \<Rightarrow> graph \<Rightarrow> (relation_t \<Rightarrow> bool) \<Rightarrow> person_t \<times> bool" where
  "is_engaged v g engaged =
     (case find engaged (out_edges g v) of
        Some it \<Rightarrow> (target it, True)
      | None \<Rightarrow> (null_vertex, True))"

section \<open>The instance of \<open>stable_marriage_test.cpp\<close>\<close>

text \<open>
  Lines 53-95 of the test: people 0, 1, 2 are created first, then 3, 4, 5; for each of
  0, 1, 2 and each of 3, 4, 5 the two relations are added, so every out-edge list is in
  increasing order of the target.
\<close>

definition men_preferences :: "int list list" where
  "men_preferences = [[1, 4, 3], [2, 5, 2], [4, 3, 6]]"

definition women_preferences :: "int list list" where
  "women_preferences = [[2, 2, 3], [4, 3, 5], [2, 3, 2]]"

definition test_graph :: graph where
  "test_graph = [[3, 4, 5], [3, 4, 5], [3, 4, 5], [0, 1, 2], [0, 1, 2], [0, 1, 2]]"

definition map_preferences :: preference_map where
  "map_preferences =
     (\<lambda>(u, v). if u < 3 then men_preferences ! u ! (v - 3) else women_preferences ! (u - 3) ! v)"

definition test_memory :: "(relation_t \<Rightarrow> bool) \<Rightarrow> color_map \<Rightarrow> memory" where
  "test_memory map_engaged color_map =
     \<lparr> the_graph = test_graph, the_engaged_to_map = map_engaged,
       the_preference_map = map_preferences, the_color_map = color_map \<rparr>"

text \<open>The labels with people 0, 1, 2 black.\<close>

definition men_black :: color_map where
  "men_black = (\<lambda>v. if v < 3 then black_color else white_color)"

definition engaged_relations :: "memory \<Rightarrow> relation_t list" where
  "engaged_relations m = filter (the_engaged_to_map m) (edges (the_graph m))"

section \<open>Invariants of the run\<close>

text \<open>
  The labels a successful partitioning leaves: every relation joins a black person and a
  person who is not black.
\<close>

definition proper_coloring :: "graph \<Rightarrow> color_map \<Rightarrow> bool" where
  "proper_coloring g color =
     list_all (\<lambda>e. (color (source e) = black_color) \<noteq> (color (target e) = black_color)) (edges g)"

text \<open>
  The engagement state between iterations: an engaged relation has its reverse, engaged
  too, and its source is not free; nobody has two engaged out-edges; and a person who is
  not black and not free has an engaged out-edge (so the search of lines 221-224 finds
  one).
\<close>

definition consistent :: "graph \<Rightarrow> color_map \<Rightarrow> state \<Rightarrow> bool" where
  "consistent g color s \<longleftrightarrow>
     (\<forall>a b. (a, b) \<in> set (edges g) \<and> engaged_to_map s (a, b) \<longrightarrow>
        (b, a) \<in> set (edges g) \<and> engaged_to_map s (b, a) \<and> \<not> free_map s a)
   \<and> (\<forall>a b c. (a, b) \<in> set (edges g) \<and> (a, c) \<in> set (edges g)
          \<and> engaged_to_map s (a, b) \<and> engaged_to_map s (a, c) \<longrightarrow> b = c)
   \<and> (\<forall>w. color w \<noteq> black_color \<and> \<not> free_map s w \<longrightarrow>
          (\<exists>v. (w, v) \<in> set (edges g) \<and> engaged_to_map s (w, v)))"

text \<open>The states at the head of the loop during a run that starts in \<open>s0\<close>.\<close>

inductive run_reaches ::
  "graph \<Rightarrow> preference_map \<Rightarrow> compare_function \<Rightarrow> color_map \<Rightarrow> state \<Rightarrow> state \<Rightarrow> bool"
  for g pref compare color s0 where
    start: "run_reaches g pref compare color s0 s0"
  | step: "run_reaches g pref compare color s0 s \<Longrightarrow> \<not> every_man_is_engaged s \<Longrightarrow>
           iteration g pref compare color s = Some s' \<Longrightarrow>
           run_reaches g pref compare color s0 s'"

text \<open>
  A policy that agrees with the built-in comparison of line 228: it holds whenever the
  left score is greater, and only when it is greater or equal.
\<close>

definition agrees_with_greater :: "compare_function \<Rightarrow> bool" where
  "agrees_with_greater compare \<longleftrightarrow>
     (\<forall>x y. (x > y \<longrightarrow> compare x y) \<and> (compare x y \<longrightarrow> x \<ge> y))"

text \<open>
  What the proposals made so far guarantee: a reviewer a black person has proposed to has
  a partner it scores at least as high, and an engaged black person has proposed to every
  reachable reviewer he scores higher than his partner.
\<close>

definition proposals_sound :: "graph \<Rightarrow> preference_map \<Rightarrow> color_map \<Rightarrow> state \<Rightarrow> bool" where
  "proposals_sound g pref color s \<longleftrightarrow>
     (\<forall>m w. color m = black_color \<and> (m, w) \<in> set (edges g) \<and> has_proposed_map s (m, w) \<longrightarrow>
        (\<exists>q. (w, q) \<in> set (edges g) \<and> engaged_to_map s (w, q) \<and> pref (w, m) \<le> pref (w, q)))
   \<and> (\<forall>m r r'. color m = black_color \<and> (m, r) \<in> set (edges g) \<and> engaged_to_map s (m, r)
          \<and> (m, r') \<in> set (edges g) \<and> (r', m) \<in> set (edges g) \<and> pref (m, r) < pref (m, r') \<longrightarrow>
        has_proposed_map s (m, r'))"

section \<open>Counting iterations\<close>

text \<open>The number of iterations of the main loop from a state (a ghost counter).\<close>

function iterations ::
  "graph \<Rightarrow> preference_map \<Rightarrow> compare_function \<Rightarrow> color_map \<Rightarrow> state \<Rightarrow> nat" where
  "iterations g pref compare color s =
     (if every_man_is_engaged s then 0
      else case iteration g pref compare color s of
             None \<Rightarrow> 0
           | Some s' \<Rightarrow> Suc (iterations g pref compare color s'))"
  by pat_completeness auto

text \<open>The sum that every iteration decreases.\<close>

definition potential :: "graph \<Rightarrow> color_map \<Rightarrow> state \<Rightarrow> nat" where
  "potential g color s =
     unproposed g color s + free_men_ahead color s + (if every_man_is_engaged s then 0 else 1)"

text \<open>What one iteration does to the flags.\<close>

definition iteration_kind :: "color_map \<Rightarrow> state \<Rightarrow> state \<Rightarrow> bool" where
  "iteration_kind color s s' \<longleftrightarrow>
     (every_man_is_engaged s' \<and> has_proposed_map s' = has_proposed_map s)
   \<or> (\<exists>man. color man = black_color \<and> free_map s man \<and> \<not> free_map s' man
          \<and> has_proposed_map s' = has_proposed_map s)
   \<or> (\<exists>man w. color man = black_color \<and> free_map s man \<and> \<not> has_proposed_map s (man, w)
          \<and> has_proposed_map s' = (has_proposed_map s)((man, w) := True))"

section \<open>The choice the spec describes\<close>

text \<open>
  The relations a man may still propose on (lines 177-181), in iteration order, and
  strict preference under the injected policy.
\<close>

definition eligible :: "graph \<Rightarrow> (relation_t \<Rightarrow> bool) \<Rightarrow> person_t \<Rightarrow> relation_t \<Rightarrow> bool" where
  "eligible g hp man r \<longleftrightarrow> \<not> hp r \<and> snd (edge (target r) man g)"

definition candidates :: "graph \<Rightarrow> (relation_t \<Rightarrow> bool) \<Rightarrow> person_t \<Rightarrow> relation_t list" where
  "candidates g hp man = filter (eligible g hp man) (out_edges g man)"

definition better :: "compare_function \<Rightarrow> int \<Rightarrow> int \<Rightarrow> bool" where
  "better compare x y \<longleftrightarrow> compare x y \<and> \<not> compare y x"

text \<open>
  A candidate maximizes the score under the policy when no candidate is strictly
  preferred to it. The choice the spec describes is the first such candidate in
  iteration order; \<open>last_best\<close> is the last one.
\<close>

definition unbeaten ::
  "graph \<Rightarrow> preference_map \<Rightarrow> compare_function \<Rightarrow> (relation_t \<Rightarrow> bool) \<Rightarrow> person_t \<Rightarrow>
   relation_t \<Rightarrow> bool" where
  "unbeaten g pref compare hp man r \<longleftrightarrow>
     list_all (\<lambda>e. \<not> better compare (pref e) (pref r)) (candidates g hp man)"

definition first_best ::
  "graph \<Rightarrow> preference_map \<Rightarrow> compare_function \<Rightarrow> (relation_t \<Rightarrow> bool) \<Rightarrow> person_t \<Rightarrow>
   relation_t option" where
  "first_best g pref compare hp man =
     find (unbeaten g pref compare hp man) (candidates g hp man)"

definition last_best ::
  "graph \<Rightarrow> preference_map \<Rightarrow> compare_function \<Rightarrow> (relation_t \<Rightarrow> bool) \<Rightarrow> person_t \<Rightarrow>
   relation_t option" where
  "last_best g pref compare hp man =
     find (unbeaten g pref compare hp man) (rev (candidates g hp man))"

text \<open>
  Properties of a comparison policy: transitive; total (of two scores one is preferred
  to the other, or each to the other, as with \<open>std::greater_equal\<close>); a strict weak order
  (irreflexive and transitive, with transitive incomparability, as \<open>std::greater\<close>).
\<close>

definition transitive_policy :: "compare_function \<Rightarrow> bool" where
  "transitive_policy compare \<longleftrightarrow> (\<forall>x y z. compare x y \<and> compare y z \<longrightarrow> compare x z)"

definition total_policy :: "compare_function \<Rightarrow> bool" where
  "total_policy compare \<longleftrightarrow> (\<forall>x y. compare x y \<or> compare y x)"

definition strict_weak_order :: "compare_function \<Rightarrow> bool" where
  "strict_weak_order compare \<longleftrightarrow>
     (\<forall>x. \<not> compare x x)
   \<and> (\<forall>x y z. compare x y \<and> compare y z \<longrightarrow> compare x z)
   \<and> (\<forall>x y z. \<not> compare x y \<and> \<not> compare y z \<longrightarrow> \<not> compare x z)"

section \<open>Further instances\<close>

text \<open>
  A complete instance with people 0, 1 on one side and 2, 3 on the other. Both 0 and 1
  score 3 higher than 2, and 3 scores 1 higher than 0; both 2 and 3 score 1 higher than
  0, and 1 scores 3 higher than 2. So whichever side proposes, the two proposers compete
  for the same reviewer, who favours the proposer with the larger index.
\<close>

definition two_graph :: graph where
  "two_graph = [[2, 3], [2, 3], [0, 1], [0, 1]]"

definition two_preferences :: preference_map where
  "two_preferences =
     (\<lambda>e. if e = (0, 3) \<or> e = (1, 3) \<or> e = (3, 1) \<or> e = (2, 1) then 2
          else if e = (0, 2) \<or> e = (1, 2) \<or> e = (3, 0) \<or> e = (2, 0) then 1
          else 0)"

definition two_memory :: memory where
  "two_memory =
     \<lparr> the_graph = two_graph, the_engaged_to_map = (\<lambda>e. False),
       the_preference_map = two_preferences, the_color_map = (\<lambda>v. white_color) \<rparr>"

text \<open>
  The same instance for a policy where the lower score is the better one (\<open>std::less\<close>):
  the scores are negated, so every preference is as before.
\<close>

definition less_preferences :: preference_map where
  "less_preferences = (\<lambda>e. - two_preferences e)"

definition less_memory :: memory where
  "less_memory = two_memory\<lparr>the_preference_map := less_preferences\<rparr>"

text \<open>A triangle: three people, each with a relation to the two others.\<close>

definition triangle_graph :: graph where
  "triangle_graph = [[1, 2], [0, 2], [0, 1]]"

definition triangle_memory :: memory where
  "triangle_memory =
     \<lparr> the_graph = triangle_graph, the_engaged_to_map = (\<lambda>e. False),
       the_preference_map = (\<lambda>e. 1),
       the_color_map = (\<lambda>v. if v = 0 then black_color else white_color) \<rparr>"

section \<open>Stability and completeness of an engagement\<close>

text \<open>
  The stability of the spec (8): \<open>p\<close> is engaged to \<open>r\<close>, can reach another reviewer \<open>r'\<close>
  (both relations exist), prefers \<open>r'\<close> over \<open>r\<close>, and \<open>r'\<close> prefers \<open>p\<close> over its partner.
\<close>

definition blocking_pair ::
  "graph \<Rightarrow> preference_map \<Rightarrow> compare_function \<Rightarrow> (relation_t \<Rightarrow> bool) \<Rightarrow>
   person_t \<Rightarrow> person_t \<Rightarrow> person_t \<Rightarrow> bool" where
  "blocking_pair g pref compare engaged p r r' \<longleftrightarrow>
     snd (edge p r g) \<and> engaged (p, r) \<and> r' \<noteq> r
     \<and> snd (edge p r' g) \<and> snd (edge r' p g)
     \<and> better compare (pref (p, r')) (pref (p, r))
     \<and> list_ex (\<lambda>q. engaged (r', q) \<and> better compare (pref (r', p)) (pref (r', q)))
          (adjacent g r')"

text \<open>A person with no engaged out-edge.\<close>

definition unengaged :: "graph \<Rightarrow> (relation_t \<Rightarrow> bool) \<Rightarrow> person_t \<Rightarrow> bool" where
  "unengaged g engaged v \<longleftrightarrow> \<not> list_ex engaged (out_edges g v)"

section \<open>Termination of the main loop\<close>

lemma best_woman_Some:
  "snd (best_woman g pref compare hp man rs acc) = Some r \<Longrightarrow>
   snd acc = Some r \<or> (r \<in> set rs \<and> \<not> hp r \<and> snd (edge (target r) man g))"
proof (induction rs arbitrary: acc)
  case Nil
  then show ?case by simp
next
  case (Cons a rs)
  obtain c b where acc: "acc = (c, b)" by (cases acc)
  show ?case
  proof (cases "\<not> hp a \<and> snd (edge (target a) man g) \<and> compare (pref a) c")
    case True
    then have "snd (best_woman g pref compare hp man rs (pref a, Some a)) = Some r"
      using Cons.prems acc by simp
    from Cons.IH [OF this] True show ?thesis by auto
  next
    case False
    then have "snd (best_woman g pref compare hp man rs (c, b)) = Some r"
      using Cons.prems acc by auto
    from Cons.IH [OF this] acc show ?thesis by auto
  qed
qed

lemma current_prefered_relation_Some:
  assumes "current_prefered_relation g pref compare hp man = Some r"
  shows "r \<in> set (out_edges g man)" "\<not> hp r" "snd (edge (target r) man g)"
  using best_woman_Some [of g pref compare hp man "out_edges g man" "(0, None)" r] assms
  by (auto simp: current_prefered_relation_def)

lemma out_edges_subset_edges: "r \<in> set (out_edges g u) \<Longrightarrow> r \<in> set (edges g)"
  by (auto simp: edges_def vertices_def out_edges_def adjacent_def split: if_splits)

lemma filter_update_less:
  "e \<in> set es \<Longrightarrow> P e \<Longrightarrow> \<not> hp e \<Longrightarrow>
   length (filter (\<lambda>x. P x \<and> \<not> (hp(e := True)) x) es) < length (filter (\<lambda>x. P x \<and> \<not> hp x) es)"
proof (induction es)
  case Nil
  then show ?case by simp
next
  case (Cons a es)
  have le: "length (filter (\<lambda>x. P x \<and> \<not> (hp(e := True)) x) es)
            \<le> length (filter (\<lambda>x. P x \<and> \<not> hp x) es)"
    by (induction es) auto
  show ?case
  proof (cases "a = e")
    case True
    then show ?thesis using Cons.prems le by simp
  next
    case False
    then show ?thesis using Cons by auto
  qed
qed

lemma filter_dropWhile_not: "filter P (dropWhile (\<lambda>x. \<not> P x) xs) = filter P xs"
  by (induction xs) auto

lemma next_free_man_filter:
  "filter (\<lambda>v. color v = black_color \<and> fr v) (next_free_man color fr it) =
   filter (\<lambda>v. color v = black_color \<and> fr v) it"
  using filter_dropWhile_not [of "\<lambda>v. color v = black_color \<and> fr v" it]
  by (simp add: next_free_man_def)

lemma next_free_man_Cons:
  "next_free_man color fr it = man # rest \<Longrightarrow> color man = black_color \<and> fr man"
  unfolding next_free_man_def
  by (metis (mono_tags, lifting) dropWhile_eq_Cons_conv)

lemma length_filter_mono:
  "(\<And>x. x \<in> set xs \<Longrightarrow> Q x \<Longrightarrow> P x) \<Longrightarrow> length (filter Q xs) \<le> length (filter P xs)"
  by (induction xs) auto

lemma propose_keeps:
  assumes "propose g pref compare man s = Some s'"
  shows "men_iterator s' = men_iterator s" "every_man_is_engaged s' = every_man_is_engaged s"
  using assms
  by (auto simp: propose_def Let_def split: option.splits if_splits)

lemma propose_decreases:
  assumes p: "propose g pref compare man s = Some s'"
    and it: "men_iterator s = man # rest"
    and man: "color man = black_color" "free_map s man"
  shows "unproposed g color s' < unproposed g color s \<or>
         (unproposed g color s' = unproposed g color s \<and> free_men_ahead color s' < free_men_ahead color s)"
proof (cases "current_prefered_relation g pref compare (has_proposed_map s) man")
  case None
  then have s': "s' = s\<lparr>free_map := (free_map s)(man := False)\<rparr>"
    using p by (simp add: propose_def)
  have "length (filter (\<lambda>v. color v = black_color \<and> ((free_map s)(man := False)) v) rest)
        \<le> length (filter (\<lambda>v. color v = black_color \<and> free_map s v) rest)"
    by (rule length_filter_mono) (auto split: if_splits)
  then have "free_men_ahead color s' < free_men_ahead color s"
    using it man by (simp add: free_men_ahead_def s')
  moreover have "unproposed g color s' = unproposed g color s"
    by (simp add: unproposed_def s')
  ultimately show ?thesis by simp
next
  case (Some rel)
  from current_prefered_relation_Some [OF Some]
  have r: "rel \<in> set (out_edges g man)" "\<not> has_proposed_map s rel"
    by simp_all
  then have "source rel = man"
    by (auto simp: out_edges_def)
  with r have rel: "rel \<in> set (edges g)" "color (source rel) = black_color" "\<not> has_proposed_map s rel"
    using man(1) by (simp_all add: out_edges_subset_edges)
  have hp: "has_proposed_map s' = (has_proposed_map s)(rel := True)"
    using p Some by (auto simp: propose_def Let_def split: option.splits if_splits)
  have "unproposed g color s' < unproposed g color s"
    unfolding unproposed_def hp
    using filter_update_less [of rel "edges g" "\<lambda>e. color (source e) = black_color" "has_proposed_map s"] rel
    by simp
  then show ?thesis by simp
qed

lemma iteration_decreases:
  assumes "\<not> every_man_is_engaged s" "iteration g pref compare color s = Some s'"
  shows "unproposed g color s' < unproposed g color s \<or>
         (unproposed g color s' = unproposed g color s \<and>
          (free_men_ahead color s' < free_men_ahead color s \<or>
           (free_men_ahead color s' = free_men_ahead color s \<and> every_man_is_engaged s')))"
proof (cases "next_free_man color (free_map s) (men_iterator s)")
  case Nil
  then have s': "s' = s\<lparr>men_iterator := [], every_man_is_engaged := True\<rparr>"
    using assms by (simp add: iteration_def)
  have "filter (\<lambda>v. color v = black_color \<and> free_map s v) (men_iterator s) = []"
    using next_free_man_filter [of color "free_map s" "men_iterator s"] Nil by simp
  then show ?thesis by (simp add: s' unproposed_def free_men_ahead_def)
next
  case (Cons man rest)
  let ?s = "s\<lparr>men_iterator := man # rest\<rparr>"
  have p: "propose g pref compare man ?s = Some s'"
    using assms Cons by (simp add: iteration_def)
  have same: "free_men_ahead color ?s = free_men_ahead color s" "unproposed g color ?s = unproposed g color s"
    using next_free_man_filter [of color "free_map s" "men_iterator s"] Cons
    by (simp_all add: free_men_ahead_def unproposed_def)
  from propose_decreases [OF p, of rest color] next_free_man_Cons [OF Cons]
  show ?thesis using same by auto
qed

termination main_loop
proof (relation "measures [\<lambda>(g, p, c, col, s). unproposed g col s,
                           \<lambda>(g, p, c, col, s). free_men_ahead col s,
                           \<lambda>(g, p, c, col, s). if every_man_is_engaged s then 0 else 1]")
  show "wf (measures [\<lambda>(g, p, c, col, s). unproposed g col s,
                           \<lambda>(g, p, c, col, s). free_men_ahead col s,
                           \<lambda>(g, p, c, col, s). if every_man_is_engaged s then 0 else 1])"
    by simp
next
  fix g pref compare color s s'
  assume "\<not> every_man_is_engaged s" "iteration g pref compare color s = Some s'"
  from iteration_decreases [OF this]
  show "((g, pref, compare, color, s'), (g, pref, compare, color, s)) \<in>
        measures [\<lambda>(g, p, c, col, s). unproposed g col s,
                           \<lambda>(g, p, c, col, s). free_men_ahead col s,
                           \<lambda>(g, p, c, col, s). if every_man_is_engaged s then 0 else 1]"
    using \<open>\<not> every_man_is_engaged s\<close> by auto
qed

declare main_loop.simps [simp del]

lemma uncolored_update_less:
  assumes "u \<in> set (vertices g)" "lab u = None"
  shows "uncolored g (lab(u \<mapsto> c)) < uncolored g lab"
proof -
  have "\<And>xs. u \<in> set xs \<Longrightarrow>
           length (filter (\<lambda>x. (lab(u \<mapsto> c)) x = None) xs) < length (filter (\<lambda>x. lab x = None) xs)"
  proof -
    fix xs show "u \<in> set xs \<Longrightarrow>
           length (filter (\<lambda>x. (lab(u \<mapsto> c)) x = None) xs) < length (filter (\<lambda>x. lab x = None) xs)"
    proof (induction xs)
      case Nil
      then show ?case by simp
    next
      case (Cons a xs)
      have le: "length (filter (\<lambda>x. (lab(u \<mapsto> c)) x = None) xs) \<le> length (filter (\<lambda>x. lab x = None) xs)"
        by (rule length_filter_mono) (auto split: if_splits)
      show ?case
      proof (cases "a = u")
        case True
        then show ?thesis using le assms(2) by simp
      next
        case False
        then show ?thesis using Cons by auto
      qed
    qed
  qed
  then show ?thesis using assms(1) by (simp add: uncolored_def)
qed

termination color_component
proof (relation "measure (\<lambda>(g, todo, lab). 2 * uncolored g lab + length todo)")
  show "wf (measure (\<lambda>(g, todo, lab). 2 * uncolored g lab + length todo))"
    by simp
next
  fix g v todo lab
  show "((g, todo, lab), (g, v # todo, lab)) \<in> measure (\<lambda>(g, todo, lab). 2 * uncolored g lab + length todo)"
    by simp
next
  fix g v todo lab c
  show "((g, todo, lab), (g, v # todo, lab)) \<in> measure (\<lambda>(g, todo, lab). 2 * uncolored g lab + length todo)"
    by simp
next
  fix g v todo c u us and lab :: "person_t \<rightharpoonup> default_color_type"
  assume "filter (\<lambda>u. lab u = None) (neighbours g v) = u # us"
  then have "u \<in> set (filter (\<lambda>u. lab u = None) (neighbours g v))"
    by simp
  then have "u \<in> set (vertices g)" "lab u = None"
    by (auto simp: neighbours_def)
  then have "uncolored g (lab(u \<mapsto> opposite c)) < uncolored g lab"
    by (rule uncolored_update_less)
  then show "((g, u # v # todo, lab(u \<mapsto> opposite c)), (g, v # todo, lab)) \<in>
        measure (\<lambda>(g, todo, lab). 2 * uncolored g lab + length todo)"
    by simp
qed

section \<open>The cases of one proposal\<close>

lemma out_edges_iff: "(u, v) \<in> set (out_edges g m) \<longleftrightarrow> u = m \<and> v \<in> set (adjacent g m)"
  by (auto simp: out_edges_def)

lemma edges_iff: "(u, v) \<in> set (edges g) \<longleftrightarrow> v \<in> set (adjacent g u)"
  by (auto simp: edges_def vertices_def out_edges_def adjacent_def)

lemma edge_simps [simp]: "fst (edge u v g) = (u, v)" "snd (edge u v g) \<longleftrightarrow> (u, v) \<in> set (edges g)"
  by (simp_all add: edge_def edges_iff)

lemma current_prefered_relation_edge:
  assumes "current_prefered_relation g pref compare hp man = Some r"
  obtains w where "r = (man, w)" "(man, w) \<in> set (edges g)" "(w, man) \<in> set (edges g)" "\<not> hp (man, w)"
proof -
  from current_prefered_relation_Some [OF assms]
  have r: "r \<in> set (out_edges g man)" "\<not> hp r" "snd (edge (target r) man g)" .
  obtain u w where uw: "r = (u, w)" by (cases r)
  with r(1) have "u = man" "w \<in> set (adjacent g man)" by (simp_all add: out_edges_iff)
  with r uw that show thesis by (simp add: edges_iff)
qed

lemma find_engaged_out_edge:
  assumes "find engaged (out_edges g w) = Some f"
  obtains prev where "f = (w, prev)" "(w, prev) \<in> set (edges g)" "engaged (w, prev)"
proof -
  from assms have "f \<in> set (out_edges g w)" "engaged f"
    by (auto simp: find_Some_iff)
  moreover obtain u p where "f = (u, p)" by (cases f)
  ultimately show thesis using that by (auto simp: out_edges_iff edges_iff)
qed

lemma propose_cases [consumes 1, case_names exhausted accepted rejected displaced]:
  assumes p: "propose g pref compare man s = Some s'"
  obtains
    (exhausted) "current_prefered_relation g pref compare (has_proposed_map s) man = None"
      "s' = s\<lparr>free_map := (free_map s)(man := False)\<rparr>"
  | (accepted) w where
      "current_prefered_relation g pref compare (has_proposed_map s) man = Some (man, w)"
      "(man, w) \<in> set (edges g)" "(w, man) \<in> set (edges g)" "\<not> has_proposed_map s (man, w)"
      "free_map s w"
      "s' = s\<lparr>has_proposed_map := (has_proposed_map s)((man, w) := True),
              engaged_to_map := (engaged_to_map s)((man, w) := True, (w, man) := True),
              free_map := (free_map s)(w := False, man := False)\<rparr>"
  | (rejected) w prev where
      "current_prefered_relation g pref compare (has_proposed_map s) man = Some (man, w)"
      "(man, w) \<in> set (edges g)" "(w, man) \<in> set (edges g)" "\<not> has_proposed_map s (man, w)"
      "\<not> free_map s w"
      "find (engaged_to_map s) (out_edges g w) = Some (w, prev)"
      "(w, prev) \<in> set (edges g)" "engaged_to_map s (w, prev)"
      "\<not> pref (w, man) > pref (w, prev)"
      "s' = s\<lparr>has_proposed_map := (has_proposed_map s)((man, w) := True)\<rparr>"
  | (displaced) w prev where
      "current_prefered_relation g pref compare (has_proposed_map s) man = Some (man, w)"
      "(man, w) \<in> set (edges g)" "(w, man) \<in> set (edges g)" "\<not> has_proposed_map s (man, w)"
      "\<not> free_map s w"
      "find (engaged_to_map s) (out_edges g w) = Some (w, prev)"
      "(w, prev) \<in> set (edges g)" "engaged_to_map s (w, prev)"
      "pref (w, man) > pref (w, prev)" "(prev, w) \<in> set (edges g)"
      "s' = s\<lparr>has_proposed_map := (has_proposed_map s)((man, w) := True),
              engaged_to_map := (engaged_to_map s)
                ((man, w) := True, (w, man) := True, (w, prev) := False, (prev, w) := False),
              free_map := (free_map s)(w := False, man := False, prev := True)\<rparr>"
proof (cases "current_prefered_relation g pref compare (has_proposed_map s) man")
  case None
  with p exhausted show thesis by (simp add: propose_def)
next
  case (Some rel)
  from current_prefered_relation_edge [OF Some] obtain w where
    w: "rel = (man, w)" "(man, w) \<in> set (edges g)" "(w, man) \<in> set (edges g)"
       "\<not> has_proposed_map s (man, w)" by blast
  show thesis
  proof (cases "free_map s w")
    case True
    with p Some w accepted [of w] show thesis
      by (simp add: propose_def Let_def)
  next
    case False
    show thesis
    proof (cases "find (engaged_to_map s) (out_edges g w)")
      case None
      with p Some w False show thesis by (simp add: propose_def Let_def)
    next
      case (Some f)
      from find_engaged_out_edge [OF Some] obtain prev where
        f: "f = (w, prev)" "(w, prev) \<in> set (edges g)" "engaged_to_map s (w, prev)" by blast
      show thesis
      proof (cases "pref (w, man) > pref (w, prev)")
        case True
        with p \<open>current_prefered_relation g pref compare (has_proposed_map s) man = Some rel\<close>
          w False Some f displaced [of w prev]
        show thesis by (simp add: propose_def Let_def split: if_splits)
      next
        case no: False
        with p \<open>current_prefered_relation g pref compare (has_proposed_map s) man = Some rel\<close>
          w False Some f rejected [of w prev]
        show thesis by (simp add: propose_def Let_def split: if_splits)
      qed
    qed
  qed
qed

section \<open>Consistency of the engagement state\<close>

lemma proper_coloringD:
  "proper_coloring g color \<Longrightarrow> (a, b) \<in> set (edges g) \<Longrightarrow>
   (color a = black_color) \<noteq> (color b = black_color)"
  by (auto simp: proper_coloring_def list_all_iff)

lemma consistentD1:
  "consistent g color s \<Longrightarrow> (a, b) \<in> set (edges g) \<Longrightarrow> engaged_to_map s (a, b) \<Longrightarrow>
   (b, a) \<in> set (edges g) \<and> engaged_to_map s (b, a) \<and> \<not> free_map s a"
  unfolding consistent_def by blast

lemma consistentD2:
  "consistent g color s \<Longrightarrow> (a, b) \<in> set (edges g) \<Longrightarrow> (a, c) \<in> set (edges g) \<Longrightarrow>
   engaged_to_map s (a, b) \<Longrightarrow> engaged_to_map s (a, c) \<Longrightarrow> b = c"
  unfolding consistent_def by blast

lemma consistentD3:
  "consistent g color s \<Longrightarrow> color w \<noteq> black_color \<Longrightarrow> \<not> free_map s w \<Longrightarrow>
   \<exists>v. (w, v) \<in> set (edges g) \<and> engaged_to_map s (w, v)"
  unfolding consistent_def by blast

lemma propose_consistent:
  assumes p: "propose g pref compare man s = Some s'"
    and inv: "consistent g color s"
    and col: "proper_coloring g color"
    and man: "color man = black_color" "free_map s man"
  shows "consistent g color s'"
  using p
proof (cases rule: propose_cases)
  case exhausted
  have E: "engaged_to_map s' = engaged_to_map s"
    and F: "free_map s' = (free_map s)(man := False)"
    by (simp_all add: exhausted(2))
  show ?thesis
    unfolding consistent_def E
  proof (intro conjI allI impI)
    fix a b assume "(a, b) \<in> set (edges g) \<and> engaged_to_map s (a, b)"
    with consistentD1 [OF inv, of a b]
    show "(b, a) \<in> set (edges g)" "engaged_to_map s (b, a)" "\<not> free_map s' a"
      by (simp_all add: F)
  next
    fix a b c
    assume "(a, b) \<in> set (edges g) \<and> (a, c) \<in> set (edges g)
          \<and> engaged_to_map s (a, b) \<and> engaged_to_map s (a, c)"
    with consistentD2 [OF inv, of a b c] show "b = c" by simp
  next
    fix w assume w: "color w \<noteq> black_color \<and> \<not> free_map s' w"
    with man have "w \<noteq> man" by auto
    with w have "\<not> free_map s w" by (simp add: F)
    with consistentD3 [OF inv, of w] w
    show "\<exists>v. (w, v) \<in> set (edges g) \<and> engaged_to_map s (w, v)"
      by simp
  qed
next
  case (accepted w)
  have E: "engaged_to_map s' = (engaged_to_map s)((man, w) := True, (w, man) := True)"
    and F: "free_map s' = (free_map s)(w := False, man := False)"
    by (simp_all add: accepted(6))
  have nm: "\<not> engaged_to_map s (man, x)" if "(man, x) \<in> set (edges g)" for x
    using consistentD1 [OF inv that] man(2) by blast
  have nw: "\<not> engaged_to_map s (w, x)" if "(w, x) \<in> set (edges g)" for x
    using consistentD1 [OF inv that] accepted(5) by blast
  have ne: "w \<noteq> man"
    using proper_coloringD [OF col accepted(2)] by auto
  show ?thesis
    unfolding consistent_def
  proof (intro conjI allI impI)
    fix a b assume ab: "(a, b) \<in> set (edges g) \<and> engaged_to_map s' (a, b)"
    consider "(a, b) = (man, w)" | "(a, b) = (w, man)"
      | "(a, b) \<noteq> (man, w)" "(a, b) \<noteq> (w, man)" by blast
    then have "(b, a) \<in> set (edges g) \<and> engaged_to_map s' (b, a) \<and> \<not> free_map s' a"
    proof cases
      case 1
      then show ?thesis using accepted(3) ne by (simp add: E F)
    next
      case 2
      then show ?thesis using accepted(2) ne by (simp add: E F)
    next
      case 3
      then have "engaged_to_map s (a, b)" using ab by (auto simp: E split: if_splits)
      with consistentD1 [OF inv, of a b] ab
      have "(b, a) \<in> set (edges g)" "engaged_to_map s (b, a)" "\<not> free_map s a"
        by simp_all
      then show ?thesis by (simp add: E F)
    qed
    then show "(b, a) \<in> set (edges g)" "engaged_to_map s' (b, a)" "\<not> free_map s' a"
      by simp_all
  next
    fix a b c
    assume h: "(a, b) \<in> set (edges g) \<and> (a, c) \<in> set (edges g)
          \<and> engaged_to_map s' (a, b) \<and> engaged_to_map s' (a, c)"
    consider "a = man" | "a = w" | "a \<noteq> man" "a \<noteq> w" by blast
    then show "b = c"
    proof cases
      case 1
      have "x = w" if "(man, x) \<in> set (edges g)" "engaged_to_map s' (man, x)" for x
        using that nm [of x] ne by (auto simp: E split: if_splits)
      with h 1 show ?thesis by blast
    next
      case 2
      have "x = man" if "(w, x) \<in> set (edges g)" "engaged_to_map s' (w, x)" for x
        using that nw [of x] ne by (auto simp: E split: if_splits)
      with h 2 show ?thesis by blast
    next
      case 3
      then have "engaged_to_map s (a, b)" "engaged_to_map s (a, c)"
        using h by (auto simp: E split: if_splits)
      with consistentD2 [OF inv, of a b c] h show ?thesis by simp
    qed
  next
    fix w' assume w': "color w' \<noteq> black_color \<and> \<not> free_map s' w'"
    with man have nman: "w' \<noteq> man" by auto
    show "\<exists>v. (w', v) \<in> set (edges g) \<and> engaged_to_map s' (w', v)"
    proof (cases "w' = w")
      case True
      have "engaged_to_map s' (w, man)" by (simp add: E)
      with True accepted(3) show ?thesis by blast
    next
      case False
      with w' nman have "\<not> free_map s w'" by (simp add: F)
      with consistentD3 [OF inv, of w'] w'
      obtain v where v: "(w', v) \<in> set (edges g)" "engaged_to_map s (w', v)" by blast
      then have "engaged_to_map s' (w', v)" using False nman by (simp add: E)
      with v show ?thesis by blast
    qed
  qed
next
  case (rejected w prev)
  have E: "engaged_to_map s' = engaged_to_map s" and F: "free_map s' = free_map s"
    by (simp_all add: rejected(10))
  show ?thesis using inv unfolding consistent_def E F .
next
  case (displaced w prev)
  have E: "engaged_to_map s' = (engaged_to_map s)
             ((man, w) := True, (w, man) := True, (w, prev) := False, (prev, w) := False)"
    and F: "free_map s' = (free_map s)(w := False, man := False, prev := True)"
    by (simp_all add: displaced(11))
  have prev: "engaged_to_map s (prev, w)" "\<not> free_map s prev"
    using consistentD1 [OF inv displaced(7,8)] consistentD1 [OF inv displaced(10)] by auto
  have ne: "prev \<noteq> man" "w \<noteq> man" "prev \<noteq> w"
    using prev man displaced(5) proper_coloringD [OF col displaced(7)]
      proper_coloringD [OF col displaced(2)] by auto
  have nm: "\<not> engaged_to_map s (man, x)" if "(man, x) \<in> set (edges g)" for x
    using consistentD1 [OF inv that] man(2) by blast
  have ow: "x = prev" if "(w, x) \<in> set (edges g)" "engaged_to_map s (w, x)" for x
    using consistentD2 [OF inv that(1) displaced(7) that(2) displaced(8)] .
  have op: "x = w" if "(prev, x) \<in> set (edges g)" "engaged_to_map s (prev, x)" for x
    using consistentD2 [OF inv that(1) displaced(10) that(2) prev(1)] .
  show ?thesis
    unfolding consistent_def
  proof (intro conjI allI impI)
    fix a b assume ab: "(a, b) \<in> set (edges g) \<and> engaged_to_map s' (a, b)"
    consider "(a, b) = (man, w)" | "(a, b) = (w, man)"
      | "(a, b) \<noteq> (man, w)" "(a, b) \<noteq> (w, man)" by blast
    then have "(b, a) \<in> set (edges g) \<and> engaged_to_map s' (b, a) \<and> \<not> free_map s' a"
    proof cases
      case 1
      then show ?thesis using displaced(3) ne by (simp add: E F)
    next
      case 2
      then show ?thesis using displaced(2) ne by (simp add: E F)
    next
      case 3
      then have old: "engaged_to_map s (a, b)" "(a, b) \<noteq> (w, prev)" "(a, b) \<noteq> (prev, w)"
        using ab ne by (auto simp: E split: if_splits)
      with consistentD1 [OF inv, of a b] ab
      have ba: "(b, a) \<in> set (edges g)" "engaged_to_map s (b, a)" "\<not> free_map s a"
        by simp_all
      have "a \<noteq> prev" using op [of b] ab old by auto
      with ba old show ?thesis by (auto simp: E F)
    qed
    then show "(b, a) \<in> set (edges g)" "engaged_to_map s' (b, a)" "\<not> free_map s' a"
      by simp_all
  next
    fix a b c
    assume h: "(a, b) \<in> set (edges g) \<and> (a, c) \<in> set (edges g)
          \<and> engaged_to_map s' (a, b) \<and> engaged_to_map s' (a, c)"
    consider "a = man" | "a = w" | "a \<noteq> man" "a \<noteq> w" by blast
    then show "b = c"
    proof cases
      case 1
      have "x = w" if "(man, x) \<in> set (edges g)" "engaged_to_map s' (man, x)" for x
        using that nm [of x] ne by (auto simp: E split: if_splits)
      with h 1 show ?thesis by blast
    next
      case 2
      have "x = man" if "(w, x) \<in> set (edges g)" "engaged_to_map s' (w, x)" for x
        using that ow [of x] ne by (auto simp: E split: if_splits)
      with h 2 show ?thesis by blast
    next
      case 3
      then have "engaged_to_map s (a, b)" "engaged_to_map s (a, c)"
        using h ne by (auto simp: E split: if_splits)
      with consistentD2 [OF inv, of a b c] h show ?thesis by simp
    qed
  next
    fix w' assume w': "color w' \<noteq> black_color \<and> \<not> free_map s' w'"
    with man have nman: "w' \<noteq> man" by auto
    from w' have nprev: "w' \<noteq> prev" by (auto simp: F)
    show "\<exists>v. (w', v) \<in> set (edges g) \<and> engaged_to_map s' (w', v)"
    proof (cases "w' = w")
      case True
      have "engaged_to_map s' (w, man)" using ne by (simp add: E)
      with True displaced(3) show ?thesis by blast
    next
      case False
      with w' nman nprev have "\<not> free_map s w'" by (simp add: F)
      with consistentD3 [OF inv, of w'] w'
      obtain v where v: "(w', v) \<in> set (edges g)" "engaged_to_map s (w', v)" by blast
      then have "engaged_to_map s' (w', v)" using False nman nprev by (simp add: E)
      with v show ?thesis by blast
    qed
  qed
qed

lemma propose_defined:
  assumes inv: "consistent g color s"
    and col: "proper_coloring g color"
    and man: "color man = black_color" "free_map s man"
  shows "\<exists>s'. propose g pref compare man s = Some s'"
proof (cases "current_prefered_relation g pref compare (has_proposed_map s) man")
  case None
  then show ?thesis by (simp add: propose_def)
next
  case (Some rel)
  from current_prefered_relation_edge [OF Some] obtain w where
    w: "rel = (man, w)" "(man, w) \<in> set (edges g)" "(w, man) \<in> set (edges g)" by blast
  show ?thesis
  proof (cases "free_map s w")
    case True
    with Some w show ?thesis by (simp add: propose_def Let_def)
  next
    case False
    have "color w \<noteq> black_color"
      using proper_coloringD [OF col w(2)] man(1) by simp
    from consistentD3 [OF inv this False] obtain v where
      v: "(w, v) \<in> set (edges g)" "engaged_to_map s (w, v)" by blast
    then have "(w, v) \<in> set (out_edges g w)"
      by (simp add: edges_iff out_edges_iff)
    with v(2) have "find (engaged_to_map s) (out_edges g w) \<noteq> None"
      by (auto simp: find_None_iff)
    then obtain f where f: "find (engaged_to_map s) (out_edges g w) = Some f" by blast
    from find_engaged_out_edge [OF f] obtain prev where
      prev: "f = (w, prev)" "(w, prev) \<in> set (edges g)" "engaged_to_map s (w, prev)" by blast
    from consistentD1 [OF inv prev(2,3)] have rev: "(prev, w) \<in> set (edges g)" by simp
    have "propose g pref compare man s \<noteq> None"
      unfolding propose_def Some w(1) using False rev
      by (simp add: Let_def f prev(1))
    then show ?thesis by blast
  qed
qed

lemma foldl_clear:
  "foldl (\<lambda>m e. m(e := False)) engaged es x = (if x \<in> set es then False else engaged x)"
  by (induction es arbitrary: engaged) auto

lemma consistent_cong:
  "engaged_to_map s' = engaged_to_map s \<Longrightarrow> free_map s' = free_map s \<Longrightarrow>
   consistent g color s' = consistent g color s"
  unfolding consistent_def by simp

lemma initial_state_consistent: "consistent g color (initial_state g engaged)"
proof -
  have e: "\<not> engaged_to_map (initial_state g engaged) x" if "x \<in> set (edges g)" for x
    using that by (simp add: initial_state_def foldl_clear)
  have f: "free_map (initial_state g engaged) v" for v
    by (simp add: initial_state_def)
  show ?thesis
    unfolding consistent_def using e f by blast
qed

lemma iteration_consistent:
  assumes inv: "consistent g color s" and col: "proper_coloring g color"
  shows "\<exists>s'. iteration g pref compare color s = Some s' \<and> consistent g color s'"
proof (cases "next_free_man color (free_map s) (men_iterator s)")
  case Nil
  have "consistent g color (s\<lparr>men_iterator := [], every_man_is_engaged := True\<rparr>)"
    using inv consistent_cong [of "s\<lparr>men_iterator := [], every_man_is_engaged := True\<rparr>" s g color]
    by simp
  with Nil show ?thesis by (simp add: iteration_def)
next
  case (Cons man rest)
  let ?s = "s\<lparr>men_iterator := man # rest\<rparr>"
  have inv': "consistent g color ?s"
    using inv consistent_cong [of ?s s g color] by simp
  from next_free_man_Cons [OF Cons] have man: "color man = black_color" "free_map ?s man"
    by simp_all
  from propose_defined [OF inv' col man] obtain s' where
    s': "propose g pref compare man ?s = Some s'" by blast
  from propose_consistent [OF s' inv' col man] s' Cons show ?thesis
    by (simp add: iteration_def)
qed

lemma main_loop_consistent:
  assumes "consistent g color s" "proper_coloring g color"
  shows "\<exists>s'. main_loop g pref compare color s = Some s' \<and> consistent g color s'
          \<and> every_man_is_engaged s'"
  using assms
proof (induction g pref compare color s rule: main_loop.induct)
  case (1 g pref compare color s)
  show ?case
  proof (cases "every_man_is_engaged s")
    case True
    with "1.prems" show ?thesis by (subst main_loop.simps) (simp del: main_loop.simps)
  next
    case False
    from iteration_consistent [OF "1.prems"] obtain s1 where
      s1: "iteration g pref compare color s = Some s1" "consistent g color s1" by blast
    from "1.IH" [OF False s1(1) s1(2) "1.prems"(2)]
    show ?thesis by (subst main_loop.simps) (simp add: False s1(1) del: main_loop.simps)
  qed
qed

section \<open>Symmetry of the engagement\<close>

lemma fun_upd_involution_sym:
  assumes inv: "\<And>k. sw (sw k) = k" and sym: "f k = f (sw k)"
  shows "(f(p := v, sw p := v)) k = (f(p := v, sw p := v)) (sw k)"
proof -
  have 1: "sw k = p \<longleftrightarrow> k = sw p" using inv by metis
  have 2: "sw k = sw p \<longleftrightarrow> k = p" using inv by metis
  show ?thesis
  proof (cases "k = p \<or> k = sw p")
    case True
    then show ?thesis by (auto simp: 1 2)
  next
    case False
    then show ?thesis using sym by (simp add: 1 2)
  qed
qed

lemma fun_upd_pair_sym:
  assumes "f (a, b) = f (b, a)"
  shows "(f((x, y) := v, (y, x) := v)) (a, b) = (f((x, y) := v, (y, x) := v)) (b, a)"
proof -
  have "f (a, b) = f (prod.swap (a, b))" using assms by simp
  from fun_upd_involution_sym [of prod.swap f "(a, b)" "(x, y)" v, OF _ this]
  show ?thesis by (simp only: swap_simp swap_swap)
qed

lemma propose_symmetric:
  assumes p: "propose g pref compare man s = Some s'"
    and sym: "engaged_to_map s (a, b) = engaged_to_map s (b, a)"
  shows "engaged_to_map s' (a, b) = engaged_to_map s' (b, a)"
  using p
proof (cases rule: propose_cases)
  case exhausted
  with sym show ?thesis by simp
next
  case (accepted w)
  have "engaged_to_map s' = (engaged_to_map s)((man, w) := True, (w, man) := True)"
    by (simp add: accepted(6))
  with fun_upd_pair_sym [OF sym, of man w True] show ?thesis by simp
next
  case (rejected w prev)
  with sym show ?thesis by simp
next
  case (displaced w prev)
  let ?e = "(engaged_to_map s)((man, w) := True, (w, man) := True)"
  have E: "engaged_to_map s' = ?e((w, prev) := False, (prev, w) := False)"
    by (simp add: displaced(11))
  have "?e (a, b) = ?e (b, a)"
    by (rule fun_upd_pair_sym [OF sym])
  from fun_upd_pair_sym [OF this, of w prev False] show ?thesis
    unfolding E .
qed

lemma iteration_symmetric:
  assumes "iteration g pref compare color s = Some s'"
    and "engaged_to_map s (a, b) = engaged_to_map s (b, a)"
  shows "engaged_to_map s' (a, b) = engaged_to_map s' (b, a)"
proof (cases "next_free_man color (free_map s) (men_iterator s)")
  case Nil
  with assms show ?thesis by (auto simp: iteration_def)
next
  case (Cons man rest)
  with assms(1) have "propose g pref compare man (s\<lparr>men_iterator := man # rest\<rparr>) = Some s'"
    by (simp add: iteration_def)
  from propose_symmetric [OF this, of a b] assms(2) show ?thesis by simp
qed

lemma initial_state_symmetric:
  assumes "(a, b) \<in> set (edges g)" "(b, a) \<in> set (edges g)"
  shows "engaged_to_map (initial_state g engaged) (a, b)
         = engaged_to_map (initial_state g engaged) (b, a)"
  using assms by (simp add: initial_state_def foldl_clear)

lemma run_reaches_symmetric:
  assumes "run_reaches g pref compare color s0 s"
    and "engaged_to_map s0 (a, b) = engaged_to_map s0 (b, a)"
  shows "engaged_to_map s (a, b) = engaged_to_map s (b, a)"
  using assms
proof (induction rule: run_reaches.induct)
  case start
  then show ?case .
next
  case (step s s')
  from iteration_symmetric [OF step(3)] step show ?case by blast
qed

lemma main_loop_reaches:
  "main_loop g pref compare color s = Some s' \<Longrightarrow> run_reaches g pref compare color s0 s \<Longrightarrow>
   run_reaches g pref compare color s0 s'"
proof (induction g pref compare color s rule: main_loop.induct)
  case (1 g pref compare color s)
  show ?case
  proof (cases "every_man_is_engaged s")
    case True
    with "1.prems" show ?thesis by (subst (asm) main_loop.simps) (simp del: main_loop.simps)
  next
    case False
    with "1.prems"(1) obtain s1 where
      s1: "iteration g pref compare color s = Some s1" "main_loop g pref compare color s1 = Some s'"
      by (subst (asm) main_loop.simps) (auto simp del: main_loop.simps split: option.splits)
    from "1.IH" [OF False s1(1) s1(2)] run_reaches.step [OF "1.prems"(2) False s1(1)]
    show ?thesis .
  qed
qed

lemma test_first_iteration:
  "\<exists>s'. iteration test_graph map_preferences (\<ge>) men_black (initial_state test_graph (\<lambda>e. False)) = Some s'"
proof -
  have "proper_coloring test_graph men_black" by code_simp
  from iteration_consistent [OF initial_state_consistent this] show ?thesis by blast
qed

text \<open>
  C8: on a well-formed graph, in every state at the head of the loop during a run, from
  the initial state on, and in the engagement that \<open>stable_marriage\<close> leaves, the engaged
  flags of \<open>a \<rightarrow> b\<close> and \<open>b \<rightarrow> a\<close> are equal whenever both relations exist: an
  iteration writes both directions of a pair or neither.
\<close>

theorem engaged_to_symmetric:
  assumes wf: "wf_graph g"
    and ab: "(a, b) \<in> set (edges g)" "(b, a) \<in> set (edges g)"
  shows "(run_reaches g pref compare color (initial_state g engaged) s \<longrightarrow>
            engaged_to_map s (a, b) = engaged_to_map s (b, a))
       \<and> (the_graph m = g \<and> stable_marriage partitioner compare m = Some m' \<longrightarrow>
            the_engaged_to_map m' (a, b) = the_engaged_to_map m' (b, a))"
proof (intro conjI impI)
  assume "run_reaches g pref compare color (initial_state g engaged) s"
  from run_reaches_symmetric [OF this initial_state_symmetric [OF ab]]
  show "engaged_to_map s (a, b) = engaged_to_map s (b, a)" .
next
  assume m: "the_graph m = g \<and> stable_marriage partitioner compare m = Some m'"
  let ?color = "snd (partitioner g (the_color_map m))"
  let ?s0 = "initial_state g (the_engaged_to_map m)"
  from m obtain s' where
    s': "main_loop g (the_preference_map m) compare ?color ?s0 = Some s'"
      "m' = m\<lparr>the_engaged_to_map := engaged_to_map s', the_color_map := ?color\<rparr>"
    by (auto simp: stable_marriage_def Let_def split: option.splits)
  from main_loop_reaches [OF s'(1) run_reaches.start]
  have "run_reaches g (the_preference_map m) compare ?color ?s0 s'" .
  from run_reaches_symmetric [OF this initial_state_symmetric [OF ab]] s'(2)
  show "the_engaged_to_map m' (a, b) = the_engaged_to_map m' (b, a)" by simp
qed

theorem engaged_to_symmetric_witness:
  "wf_graph test_graph \<and> (0, 4) \<in> set (edges test_graph) \<and> (4, 0) \<in> set (edges test_graph)
   \<and> run_reaches test_graph map_preferences (\<ge>) men_black (initial_state test_graph (\<lambda>e. False))
        (the (iteration test_graph map_preferences (\<ge>) men_black (initial_state test_graph (\<lambda>e. False))))
   \<and> engaged_to_map (the (iteration test_graph map_preferences (\<ge>) men_black
          (initial_state test_graph (\<lambda>e. False)))) (0, 4)
   \<and> engaged_to_map (the (iteration test_graph map_preferences (\<ge>) men_black
          (initial_state test_graph (\<lambda>e. False)))) (4, 0)
   \<and> the_engaged_to_map (the (stable_marriage (is_bipartite black_color) (\<ge>)
          (test_memory (\<lambda>e. False) (\<lambda>v. white_color)))) (0, 4)
   \<and> the_engaged_to_map (the (stable_marriage (is_bipartite black_color) (\<ge>)
          (test_memory (\<lambda>e. False) (\<lambda>v. white_color)))) (4, 0)"
proof -
  let ?s0 = "initial_state test_graph (\<lambda>e. False)"
  let ?s1 = "the (iteration test_graph map_preferences (\<ge>) men_black ?s0)"
  let ?m = "test_memory (\<lambda>e. False) (\<lambda>v. white_color)"
  let ?m' = "the (stable_marriage (is_bipartite black_color) (\<ge>) ?m)"
  have w: "wf_graph test_graph" by code_simp
  have e: "(0, 4) \<in> set (edges test_graph)" "(4, 0) \<in> set (edges test_graph)"
    by code_simp+
  have "\<not> every_man_is_engaged ?s0" by (simp add: initial_state_def)
  moreover from test_first_iteration
  have "iteration test_graph map_preferences (\<ge>) men_black ?s0 = Some ?s1" by auto
  ultimately have r: "run_reaches test_graph map_preferences (\<ge>) men_black ?s0 ?s1"
    using run_reaches.step [OF run_reaches.start] by blast
  have l: "engaged_to_map ?s1 (0, 4)" by code_simp
  have g: "the_graph ?m = test_graph" by (simp add: test_memory_def)
  have "map_option engaged_relations (stable_marriage (is_bipartite black_color) (\<ge>) ?m) \<noteq> None"
    by code_simp
  then have f: "stable_marriage (is_bipartite black_color) (\<ge>) ?m = Some ?m'" by auto
  have fl: "the_engaged_to_map ?m' (0, 4)" by code_simp
  from engaged_to_symmetric [OF w e, of map_preferences "(\<ge>)" men_black "\<lambda>e. False" ?s1 ?m
      "is_bipartite black_color" ?m'] r l g f fl e w
  show ?thesis by simp
qed

section \<open>Termination and the number of iterations\<close>

termination iterations
proof (relation "measures [\<lambda>(g, p, c, col, s). unproposed g col s,
                           \<lambda>(g, p, c, col, s). free_men_ahead col s,
                           \<lambda>(g, p, c, col, s). if every_man_is_engaged s then 0 else 1]")
  show "wf (measures [\<lambda>(g, p, c, col, s). unproposed g col s,
                           \<lambda>(g, p, c, col, s). free_men_ahead col s,
                           \<lambda>(g, p, c, col, s). if every_man_is_engaged s then 0 else 1])"
    by simp
next
  fix g pref compare color s s'
  assume "\<not> every_man_is_engaged s" "iteration g pref compare color s = Some s'"
  from iteration_decreases [OF this]
  show "((g, pref, compare, color, s'), (g, pref, compare, color, s)) \<in>
        measures [\<lambda>(g, p, c, col, s). unproposed g col s,
                           \<lambda>(g, p, c, col, s). free_men_ahead col s,
                           \<lambda>(g, p, c, col, s). if every_man_is_engaged s then 0 else 1]"
    using \<open>\<not> every_man_is_engaged s\<close> by auto
qed

declare iterations.simps [simp del]

lemma length_filter_one_more:
  assumes "distinct xs" "\<And>v. v \<in> set xs \<Longrightarrow> Q v \<Longrightarrow> P v \<or> v = p"
  shows "length (filter Q xs) \<le> Suc (length (filter P xs))"
  using assms
proof (induction xs)
  case Nil
  then show ?case by simp
next
  case (Cons x xs)
  show ?case
  proof (cases "x = p")
    case True
    with Cons.prems have "\<And>v. v \<in> set xs \<Longrightarrow> Q v \<Longrightarrow> P v" by auto
    then have "length (filter Q xs) \<le> length (filter P xs)"
      by (rule length_filter_mono)
    then show ?thesis by simp
  next
    case False
    with Cons.prems have "Q x \<Longrightarrow> P x" by auto
    moreover from Cons have "length (filter Q xs) \<le> Suc (length (filter P xs))" by auto
    ultimately show ?thesis by auto
  qed
qed

lemma propose_free_men_ahead:
  assumes p: "propose g pref compare man s = Some s'"
    and it: "men_iterator s = man # rest" "distinct (man # rest)"
    and man: "color man = black_color" "free_map s man"
  shows "free_men_ahead color s' \<le> free_men_ahead color s"
  using p
proof (cases rule: propose_cases)
  case exhausted
  have "free_men_ahead color s' =
        length (filter (\<lambda>v. color v = black_color \<and> ((free_map s)(man := False)) v) (man # rest))"
    by (simp add: free_men_ahead_def exhausted(2) it(1))
  also have "\<dots> \<le> length (filter (\<lambda>v. color v = black_color \<and> free_map s v) (man # rest))"
    by (rule length_filter_mono) (simp split: if_splits)
  finally show ?thesis by (simp add: free_men_ahead_def it(1))
next
  case (accepted w)
  have "free_men_ahead color s' =
        length (filter (\<lambda>v. color v = black_color \<and> ((free_map s)(w := False, man := False)) v) (man # rest))"
    by (simp add: free_men_ahead_def accepted(6) it(1))
  also have "\<dots> \<le> length (filter (\<lambda>v. color v = black_color \<and> free_map s v) (man # rest))"
    by (rule length_filter_mono) (simp split: if_splits)
  finally show ?thesis by (simp add: free_men_ahead_def it(1))
next
  case (rejected w prev)
  then show ?thesis by (simp add: free_men_ahead_def)
next
  case (displaced w prev)
  let ?f = "(free_map s)(w := False, man := False, prev := True)"
  have s': "free_men_ahead color s' =
        length (filter (\<lambda>v. color v = black_color \<and> ?f v) (man # rest))"
    by (simp add: free_men_ahead_def displaced(11) it(1))
  show ?thesis
  proof (cases "prev = man")
    case True
    have "length (filter (\<lambda>v. color v = black_color \<and> ?f v) (man # rest))
          \<le> length (filter (\<lambda>v. color v = black_color \<and> free_map s v) (man # rest))"
      by (rule length_filter_mono) (use True man in \<open>simp split: if_splits\<close>)
    with s' show ?thesis by (simp add: free_men_ahead_def it(1))
  next
    case False
    have "length (filter (\<lambda>v. color v = black_color \<and> ?f v) rest)
          \<le> Suc (length (filter (\<lambda>v. color v = black_color \<and> free_map s v) rest))"
      by (rule length_filter_one_more [where p = prev]) (use it(2) in \<open>auto split: if_splits\<close>)
    moreover have "\<not> ?f man" using False by simp
    ultimately show ?thesis using s' man by (simp add: free_men_ahead_def it(1))
  qed
qed

lemma iteration_potential:
  assumes nd: "\<not> every_man_is_engaged s"
    and it: "iteration g pref compare color s = Some s'"
    and d: "distinct (men_iterator s)"
  shows "potential g color s' < potential g color s \<and> distinct (men_iterator s')"
proof (cases "next_free_man color (free_map s) (men_iterator s)")
  case Nil
  then have s': "s' = s\<lparr>men_iterator := [], every_man_is_engaged := True\<rparr>"
    using it by (simp add: iteration_def)
  show ?thesis using nd
    by (simp add: s' potential_def unproposed_def free_men_ahead_def)
next
  case (Cons man rest)
  let ?s = "s\<lparr>men_iterator := man # rest\<rparr>"
  have p: "propose g pref compare man ?s = Some s'"
    using it Cons by (simp add: iteration_def)
  have d': "distinct (man # rest)"
    using d distinct_dropWhile [of "men_iterator s"] Cons
    unfolding next_free_man_def by metis
  have same: "free_men_ahead color ?s = free_men_ahead color s"
    "unproposed g color ?s = unproposed g color s"
    using next_free_man_filter [of color "free_map s" "men_iterator s"] Cons
    by (simp_all add: free_men_ahead_def unproposed_def)
  from next_free_man_Cons [OF Cons] have man: "color man = black_color" "free_map ?s man"
    by simp_all
  have it': "men_iterator ?s = man # rest" by simp
  have "unproposed g color s' < unproposed g color ?s \<or>
         (unproposed g color s' = unproposed g color ?s \<and>
          free_men_ahead color s' < free_men_ahead color ?s)"
    using p it' man by (rule propose_decreases)
  moreover have "free_men_ahead color s' \<le> free_men_ahead color ?s"
    using p it' d' man by (rule propose_free_men_ahead)
  ultimately
  have "unproposed g color s' + free_men_ahead color s' < unproposed g color s + free_men_ahead color s"
    using same by linarith
  moreover from propose_keeps [OF p]
  have "men_iterator s' = man # rest" "every_man_is_engaged s' = every_man_is_engaged s"
    by simp_all
  ultimately show ?thesis using d' by (simp add: potential_def)
qed

lemma iterations_bound:
  "distinct (men_iterator s) \<Longrightarrow> iterations g pref compare color s \<le> potential g color s"
proof (induction g pref compare color s rule: iterations.induct)
  case (1 g pref compare color s)
  show ?case
  proof (cases "every_man_is_engaged s")
    case True
    then show ?thesis by (subst iterations.simps) simp
  next
    case False
    show ?thesis
    proof (cases "iteration g pref compare color s")
      case None
      with False show ?thesis by (subst iterations.simps) simp
    next
      case (Some s')
      from iteration_potential [OF False Some "1.prems"]
      have lt: "potential g color s' < potential g color s" and d: "distinct (men_iterator s')"
        by simp_all
      from "1.IH" [OF False Some d] lt
      have "Suc (iterations g pref compare color s') \<le> potential g color s" by simp
      with False Some show ?thesis by (subst iterations.simps) simp
    qed
  qed
qed

lemma potential_initial_state:
  "potential g color (initial_state g engaged) =
     length (filter (\<lambda>e. color (source e) = black_color) (edges g))
     + length (filter (\<lambda>v. color v = black_color) (vertices g)) + 1"
  by (simp add: potential_def initial_state_def unproposed_def free_men_ahead_def)

lemma iteration_iteration_kind:
  assumes it: "iteration g pref compare color s = Some s'"
  shows "iteration_kind color s s'"
proof (cases "next_free_man color (free_map s) (men_iterator s)")
  case Nil
  then have s': "s' = s\<lparr>men_iterator := [], every_man_is_engaged := True\<rparr>"
    using it by (simp add: iteration_def)
  then show ?thesis by (simp add: iteration_kind_def)
next
  case (Cons man rest)
  let ?s = "s\<lparr>men_iterator := man # rest\<rparr>"
  have p: "propose g pref compare man ?s = Some s'"
    using it Cons by (simp add: iteration_def)
  from next_free_man_Cons [OF Cons] have man: "color man = black_color" "free_map s man"
    by simp_all
  from p show ?thesis
  proof (cases rule: propose_cases)
    case exhausted
    then have "\<not> free_map s' man" "has_proposed_map s' = has_proposed_map s" by simp_all
    with man show ?thesis unfolding iteration_kind_def by blast
  next
    case (accepted w)
    then have "\<not> has_proposed_map s (man, w)"
      "has_proposed_map s' = (has_proposed_map s)((man, w) := True)" by simp_all
    with man show ?thesis unfolding iteration_kind_def by blast
  next
    case (rejected w prev)
    then have "\<not> has_proposed_map s (man, w)"
      "has_proposed_map s' = (has_proposed_map s)((man, w) := True)" by simp_all
    with man show ?thesis unfolding iteration_kind_def by blast
  next
    case (displaced w prev)
    then have "\<not> has_proposed_map s (man, w)"
      "has_proposed_map s' = (has_proposed_map s)((man, w) := True)" by simp_all
    with man show ?thesis unfolding iteration_kind_def by blast
  qed
qed

lemma iteration_kind_monotone:
  "iteration_kind color s s' \<Longrightarrow> has_proposed_map s e \<Longrightarrow> has_proposed_map s' e"
  unfolding iteration_kind_def by auto

lemma run_reaches_consistent:
  assumes "run_reaches g pref compare color s0 s" "consistent g color s0" "proper_coloring g color"
  shows "consistent g color s"
  using assms
proof (induction rule: run_reaches.induct)
  case start
  then show ?case by simp
next
  case (step s s')
  then have "consistent g color s" by simp
  from iteration_consistent [OF this step.prems(2), of pref compare] step.hyps(3)
  show ?case by simp
qed

text \<open>
  C5: on a well-formed graph whose labels are a proper 2-colouring (every relation joins a
  black and a non-black person), \<open>stable_marriage\<close> returns: the main loop terminates
  and never reaches undefined behaviour. The number of iterations is at most the number
  of relations out of black people plus the number of black people plus one. Every
  iteration of a run is defined and of one of three kinds: it ends the loop, it takes a
  free black person out of the free set without a proposal, or it sets one has-proposed
  flag that was clear; flags are only ever set.
\<close>

theorem main_loop_terminates:
  assumes "wf_graph g"
    and "proper_coloring g color"
    and "g = the_graph m"
    and "color = snd (partitioner g (the_color_map m))"
    and "pref = the_preference_map m"
    and "s0 = initial_state g (the_engaged_to_map m)"
  shows "(\<exists>m'. stable_marriage partitioner compare m = Some m')
       \<and> iterations g pref compare color s0
           \<le> length (filter (\<lambda>e. color (source e) = black_color) (edges g))
             + length (filter (\<lambda>v. color v = black_color) (vertices g)) + 1
       \<and> (\<forall>s. run_reaches g pref compare color s0 s \<and> \<not> every_man_is_engaged s \<longrightarrow>
             (\<exists>s'. iteration g pref compare color s = Some s' \<and> iteration_kind color s s'))"
proof (intro conjI allI impI)
  have c0: "consistent g color s0"
    unfolding assms(6) by (rule initial_state_consistent)
  from main_loop_consistent [OF c0 assms(2), of pref compare] obtain s' where
    "main_loop g pref compare color s0 = Some s'" by blast
  then show "\<exists>m'. stable_marriage partitioner compare m = Some m'"
    unfolding stable_marriage_def assms(3-6) by (simp add: Let_def)
next
  have "distinct (men_iterator s0)"
    unfolding assms(6) by (simp add: initial_state_def vertices_def)
  from iterations_bound [OF this, of g pref compare color]
  show "iterations g pref compare color s0
           \<le> length (filter (\<lambda>e. color (source e) = black_color) (edges g))
             + length (filter (\<lambda>v. color v = black_color) (vertices g)) + 1"
    unfolding assms(6) potential_initial_state .
next
  fix s
  assume s: "run_reaches g pref compare color s0 s \<and> \<not> every_man_is_engaged s"
  have c0: "consistent g color s0"
    unfolding assms(6) by (rule initial_state_consistent)
  from s run_reaches_consistent [OF _ c0 assms(2)] have "consistent g color s" by blast
  from iteration_consistent [OF this assms(2), of pref compare] obtain s' where
    s': "iteration g pref compare color s = Some s'" by blast
  with iteration_iteration_kind [OF s']
  show "\<exists>s'. iteration g pref compare color s = Some s' \<and> iteration_kind color s s'"
    by blast
qed

theorem main_loop_terminates_witness:
  "wf_graph test_graph
   \<and> proper_coloring test_graph
        (snd (is_bipartite black_color test_graph (\<lambda>v. white_color)))
   \<and> (\<exists>m'. stable_marriage (is_bipartite black_color) (\<ge>)
              (test_memory (\<lambda>e. False) (\<lambda>v. white_color)) = Some m')
   \<and> iterations test_graph map_preferences (\<ge>)
        (snd (is_bipartite black_color test_graph (\<lambda>v. white_color)))
        (initial_state test_graph (\<lambda>e. False)) \<le> 13
   \<and> (\<exists>s'. iteration test_graph map_preferences (\<ge>)
               (snd (is_bipartite black_color test_graph (\<lambda>v. white_color)))
               (initial_state test_graph (\<lambda>e. False)) = Some s'
             \<and> iteration_kind (snd (is_bipartite black_color test_graph (\<lambda>v. white_color)))
                  (initial_state test_graph (\<lambda>e. False)) s')"
proof -
  let ?m = "test_memory (\<lambda>e. False) (\<lambda>v. white_color)"
  let ?color = "snd (is_bipartite black_color test_graph (\<lambda>v. white_color))"
  let ?s0 = "initial_state test_graph (\<lambda>e. False)"
  have w: "wf_graph test_graph" by code_simp
  have p: "proper_coloring test_graph ?color" by code_simp
  have g: "test_graph = the_graph ?m" "?color = snd (is_bipartite black_color test_graph (the_color_map ?m))"
    "map_preferences = the_preference_map ?m" "?s0 = initial_state test_graph (the_engaged_to_map ?m)"
    by (simp_all add: test_memory_def)
  have n: "length (filter (\<lambda>e. ?color (source e) = black_color) (edges test_graph))
             + length (filter (\<lambda>v. ?color v = black_color) (vertices test_graph)) + 1 = 13"
    by code_simp
  have r: "run_reaches test_graph map_preferences (\<ge>) ?color ?s0 ?s0"
    by (rule run_reaches.start)
  have nd: "\<not> every_man_is_engaged ?s0" by (simp add: initial_state_def)
  have "(\<exists>m'. stable_marriage (is_bipartite black_color) (\<ge>) ?m = Some m')
       \<and> iterations test_graph map_preferences (\<ge>) ?color ?s0
           \<le> length (filter (\<lambda>e. ?color (source e) = black_color) (edges test_graph))
             + length (filter (\<lambda>v. ?color v = black_color) (vertices test_graph)) + 1
       \<and> (\<forall>s. run_reaches test_graph map_preferences (\<ge>) ?color ?s0 s \<and> \<not> every_man_is_engaged s \<longrightarrow>
             (\<exists>s'. iteration test_graph map_preferences (\<ge>) ?color s = Some s' \<and> iteration_kind ?color s s'))"
    using w p g by (rule main_loop_terminates)
  with n r nd w p show ?thesis by (simp only:) blast
qed

section \<open>The choice of the relation to propose on\<close>

lemma find_append_first:
  "P r \<Longrightarrow> (\<And>y. y \<in> set ys \<Longrightarrow> \<not> P y) \<Longrightarrow> find P (ys @ r # zs) = Some r"
  by (induction ys) auto

lemma best_woman_scan:
  assumes irr: "\<And>x. \<not> compare x x"
    and tr: "\<And>x y z. compare x y \<Longrightarrow> compare y z \<Longrightarrow> compare x z"
    and ntr: "\<And>x y z. \<not> compare x y \<Longrightarrow> \<not> compare y z \<Longrightarrow> \<not> compare x z"
  shows "snd (best_woman g pref compare hp man rs (c, b)) = Some r \<Longrightarrow>
     (\<And>e. e \<in> set ds \<Longrightarrow> eligible g hp man e \<Longrightarrow> \<not> compare (pref e) c) \<Longrightarrow>
     b = None \<or> (\<exists>ys r0 zs. ds = ys @ r0 # zs \<and> b = Some r0 \<and> c = pref r0 \<and> eligible g hp man r0
                   \<and> (\<forall>e\<in>set ys. eligible g hp man e \<longrightarrow> compare (pref r0) (pref e))) \<Longrightarrow>
     \<exists>ys zs. ds @ rs = ys @ r # zs \<and> eligible g hp man r
        \<and> (\<forall>e\<in>set ys. eligible g hp man e \<longrightarrow> compare (pref r) (pref e))
        \<and> (\<forall>e\<in>set (ds @ rs). eligible g hp man e \<longrightarrow> \<not> compare (pref e) (pref r))"
proof (induction rs arbitrary: ds c b)
  case Nil
  from Nil.prems(1) have "b = Some r" by simp
  with Nil.prems(3) obtain ys zs where
    d: "ds = ys @ r # zs" "c = pref r" "eligible g hp man r"
       "\<forall>e\<in>set ys. eligible g hp man e \<longrightarrow> compare (pref r) (pref e)"
    by auto
  with Nil.prems(2) have "\<forall>e\<in>set (ds @ []). eligible g hp man e \<longrightarrow> \<not> compare (pref e) (pref r)"
    by simp
  with d show ?case by auto
next
  case (Cons x xs)
  show ?case
  proof (cases "eligible g hp man x \<and> compare (pref x) c")
    case True
    then have res: "snd (best_woman g pref compare hp man xs (pref x, Some x)) = Some r"
      using Cons.prems(1) by (simp add: eligible_def)
    have i1: "\<not> compare (pref e) (pref x)" if "e \<in> set (ds @ [x])" "eligible g hp man e" for e
    proof (cases "e = x")
      case True
      then show ?thesis by (simp add: irr)
    next
      case False
      with that(1) have "e \<in> set ds" by simp
      from Cons.prems(2) [OF this that(2)] have "\<not> compare (pref e) c" .
      with True tr show ?thesis by blast
    qed
    have "\<forall>e\<in>set ds. eligible g hp man e \<longrightarrow> compare (pref x) (pref e)"
      using Cons.prems(2) True ntr by blast
    with True
    have acc: "Some x = None \<or> (\<exists>ys r0 zs. ds @ [x] = ys @ r0 # zs \<and> Some x = Some r0 \<and> pref x = pref r0
                   \<and> eligible g hp man r0
                   \<and> (\<forall>e\<in>set ys. eligible g hp man e \<longrightarrow> compare (pref r0) (pref e)))"
      by (intro disjI2 exI [of _ ds] exI [of _ x] exI [of _ "[]"]) simp
    from Cons.IH [OF res i1 acc] show ?thesis by simp
  next
    case False
    then have res: "snd (best_woman g pref compare hp man xs (c, b)) = Some r"
      using Cons.prems(1) by (auto simp: eligible_def)
    have i1: "\<not> compare (pref e) c" if "e \<in> set (ds @ [x])" "eligible g hp man e" for e
    proof (cases "e = x")
      case True
      with that(2) False show ?thesis by blast
    next
      case ne: False
      with that(1) have "e \<in> set ds" by simp
      from Cons.prems(2) [OF this that(2)] show ?thesis .
    qed
    have acc: "b = None \<or> (\<exists>ys r0 zs. ds @ [x] = ys @ r0 # zs \<and> b = Some r0 \<and> c = pref r0
                   \<and> eligible g hp man r0
                   \<and> (\<forall>e\<in>set ys. eligible g hp man e \<longrightarrow> compare (pref r0) (pref e)))"
    proof (cases b)
      case None
      then show ?thesis by simp
    next
      case (Some r0)
      with Cons.prems(3) obtain ys zs where
        "ds = ys @ r0 # zs" "c = pref r0" "eligible g hp man r0"
        "\<forall>e\<in>set ys. eligible g hp man e \<longrightarrow> compare (pref r0) (pref e)" by auto
      then have "ds @ [x] = ys @ r0 # (zs @ [x]) \<and> b = Some r0 \<and> c = pref r0
                   \<and> eligible g hp man r0
                   \<and> (\<forall>e\<in>set ys. eligible g hp man e \<longrightarrow> compare (pref r0) (pref e))"
        using Some by simp
      then show ?thesis by blast
    qed
    from Cons.IH [OF res i1 acc] show ?thesis by simp
  qed
qed

lemma strict_weak_order_greater: "strict_weak_order (>)"
  by (auto simp: strict_weak_order_def)

lemma best_woman_last_update:
  "best_woman g pref compare hp man rs (c, b) = (c', Some r) \<Longrightarrow>
     (b = Some r \<and> c' = c \<and> (\<forall>e\<in>set rs. eligible g hp man e \<longrightarrow> \<not> compare (pref e) c))
   \<or> (\<exists>ys zs. rs = ys @ r # zs \<and> eligible g hp man r \<and> c' = pref r
          \<and> (\<forall>e\<in>set zs. eligible g hp man e \<longrightarrow> \<not> compare (pref e) (pref r)))"
proof (induction rs arbitrary: c b)
  case Nil
  then show ?case by simp
next
  case (Cons x xs)
  show ?case
  proof (cases "eligible g hp man x \<and> compare (pref x) c")
    case True
    then have "best_woman g pref compare hp man xs (pref x, Some x) = (c', Some r)"
      using Cons.prems by (simp add: eligible_def)
    from Cons.IH [OF this] show ?thesis
    proof
      assume a: "Some x = Some r \<and> c' = pref x
        \<and> (\<forall>e\<in>set xs. eligible g hp man e \<longrightarrow> \<not> compare (pref e) (pref x))"
      then have xr: "x = r" by simp
      have "x # xs = [] @ x # xs" by simp
      moreover from True have "eligible g hp man x" by blast
      moreover from a have "c' = pref x" by blast
      moreover from a have "\<forall>e\<in>set xs. eligible g hp man e \<longrightarrow> \<not> compare (pref e) (pref x)"
        by blast
      ultimately show ?thesis unfolding xr by blast
    next
      assume "\<exists>ys zs. xs = ys @ r # zs \<and> eligible g hp man r \<and> c' = pref r
          \<and> (\<forall>e\<in>set zs. eligible g hp man e \<longrightarrow> \<not> compare (pref e) (pref r))"
      then obtain ys zs where
        d: "xs = ys @ r # zs" "eligible g hp man r" "c' = pref r"
           "\<forall>e\<in>set zs. eligible g hp man e \<longrightarrow> \<not> compare (pref e) (pref r)"
        by blast
      then have "x # xs = (x # ys) @ r # zs" by simp
      with d show ?thesis by blast
    qed
  next
    case False
    then have "best_woman g pref compare hp man xs (c, b) = (c', Some r)"
      using Cons.prems by (auto simp: eligible_def)
    from Cons.IH [OF this] show ?thesis
    proof
      assume a: "b = Some r \<and> c' = c
        \<and> (\<forall>e\<in>set xs. eligible g hp man e \<longrightarrow> \<not> compare (pref e) c)"
      with False have "\<forall>e\<in>set (x # xs). eligible g hp man e \<longrightarrow> \<not> compare (pref e) c"
        by simp
      with a show ?thesis by blast
    next
      assume "\<exists>ys zs. xs = ys @ r # zs \<and> eligible g hp man r \<and> c' = pref r
          \<and> (\<forall>e\<in>set zs. eligible g hp man e \<longrightarrow> \<not> compare (pref e) (pref r))"
      then obtain ys zs where
        d: "xs = ys @ r # zs" "eligible g hp man r" "c' = pref r"
           "\<forall>e\<in>set zs. eligible g hp man e \<longrightarrow> \<not> compare (pref e) (pref r)"
        by blast
      then have "x # xs = (x # ys) @ r # zs" by simp
      with d show ?thesis by blast
    qed
  qed
qed

lemma best_woman_unbeaten:
  assumes tr: "\<And>x y z. compare x y \<Longrightarrow> compare y z \<Longrightarrow> compare x z"
  shows "best_woman g pref compare hp man rs (c, b) = (c', b') \<Longrightarrow>
     (\<And>e. e \<in> set ds \<Longrightarrow> eligible g hp man e \<Longrightarrow> \<not> better compare (pref e) c) \<Longrightarrow>
     e \<in> set (ds @ rs) \<Longrightarrow> eligible g hp man e \<Longrightarrow> \<not> better compare (pref e) c'"
proof (induction rs arbitrary: ds c b)
  case Nil
  then show ?case by simp
next
  case (Cons x xs)
  have mem: "e \<in> set ((ds @ [x]) @ xs)" using Cons.prems(3) by simp
  show ?case
  proof (cases "eligible g hp man x \<and> compare (pref x) c")
    case True
    then have res: "best_woman g pref compare hp man xs (pref x, Some x) = (c', b')"
      using Cons.prems(1) by (simp add: eligible_def)
    have i: "\<not> better compare (pref d) (pref x)" if "d \<in> set (ds @ [x])" "eligible g hp man d" for d
    proof (cases "d = x")
      case True
      then show ?thesis by (simp add: better_def)
    next
      case False
      with that(1) have "d \<in> set ds" by simp
      from Cons.prems(2) [OF this that(2)] have nb: "\<not> better compare (pref d) c" .
      show ?thesis
      proof
        assume b: "better compare (pref d) (pref x)"
        then have "compare (pref d) (pref x)" by (simp add: better_def)
        with True tr have "compare (pref d) c" by blast
        with nb have "compare c (pref d)" by (simp add: better_def)
        with True tr have "compare (pref x) (pref d)" by blast
        with b show False by (simp add: better_def)
      qed
    qed
    from Cons.IH [OF res i mem Cons.prems(4)] show ?thesis .
  next
    case False
    then have res: "best_woman g pref compare hp man xs (c, b) = (c', b')"
      using Cons.prems(1) by (auto simp: eligible_def)
    have i: "\<not> better compare (pref d) c" if "d \<in> set (ds @ [x])" "eligible g hp man d" for d
    proof (cases "d = x")
      case True
      with that(2) False show ?thesis by (simp add: better_def)
    next
      case ne: False
      with that(1) have "d \<in> set ds" by simp
      from Cons.prems(2) [OF this that(2)] show ?thesis .
    qed
    from Cons.IH [OF res i mem Cons.prems(4)] show ?thesis .
  qed
qed

lemma total_policy_greater_equal: "total_policy (\<ge>)"
  by (auto simp: total_policy_def)

lemma transitive_policy_greater_equal: "transitive_policy (\<ge>)"
  by (auto simp: transitive_policy_def)

lemma transitive_policy_greater: "transitive_policy (>)"
  by (auto simp: transitive_policy_def)

text \<open>
  C6 (amended): when the comparison policy is transitive and the man proposes, the
  relation he proposes on is one of his out-edges not yet proposed on whose reverse
  relation exists, and none of these is strictly preferred to it (preferred by the
  policy without the converse). Which of the relations that are maximal in this sense
  he takes depends on the policy: the first in iteration order when the policy is a
  strict weak order (as \<open>std::greater\<close>), the last in iteration order when the policy
  is total (as \<open>std::greater_equal\<close>, the comparator of the test and of the example).
\<close>

theorem proposal_is_best:
  assumes tr: "transitive_policy compare"
    and sel: "current_prefered_relation g pref compare hp man = Some r"
  shows "r \<in> set (candidates g hp man)
       \<and> unbeaten g pref compare hp man r
       \<and> (strict_weak_order compare \<longrightarrow> first_best g pref compare hp man = Some r)
       \<and> (total_policy compare \<longrightarrow> last_best g pref compare hp man = Some r)"
proof (intro conjI impI)
  from tr have tr': "\<And>x y z. compare x y \<Longrightarrow> compare y z \<Longrightarrow> compare x z"
    unfolding transitive_policy_def by blast
  obtain c' where res: "best_woman g pref compare hp man (out_edges g man) (0, None) = (c', Some r)"
    using sel unfolding current_prefered_relation_def
    by (cases "best_woman g pref compare hp man (out_edges g man) (0, None)") simp
  from best_woman_last_update [OF res] obtain ys zs where
    es: "out_edges g man = ys @ r # zs" and el: "eligible g hp man r" and c': "c' = pref r"
    and after: "\<forall>e\<in>set zs. eligible g hp man e \<longrightarrow> \<not> compare (pref e) (pref r)"
    by auto
  show cand: "r \<in> set (candidates g hp man)"
    using es el by (simp add: candidates_def)
  have "\<not> better compare (pref e) (pref r)" if "e \<in> set (candidates g hp man)" for e
  proof -
    from that have "e \<in> set ([] @ out_edges g man)" "eligible g hp man e"
      by (simp_all add: candidates_def)
    from best_woman_unbeaten [OF tr' res _ this] show ?thesis
      unfolding c' by simp
  qed
  then show unb: "unbeaten g pref compare hp man r"
    by (simp add: unbeaten_def list_all_iff)
  have cs: "candidates g hp man
            = filter (eligible g hp man) ys @ r # filter (eligible g hp man) zs"
    using es el by (simp add: candidates_def)
  {
    assume tot: "total_policy compare"
    have "\<not> unbeaten g pref compare hp man z" if "z \<in> set (rev (filter (eligible g hp man) zs))" for z
    proof -
      from that after have "\<not> compare (pref z) (pref r)" by simp
      moreover from this tot have "compare (pref r) (pref z)"
        unfolding total_policy_def by blast
      ultimately have "better compare (pref r) (pref z)" by (simp add: better_def)
      with cand show ?thesis
        unfolding unbeaten_def list_all_iff by blast
    qed
    with unb have "find (unbeaten g pref compare hp man)
            (rev (filter (eligible g hp man) zs) @ r # rev (filter (eligible g hp man) ys)) = Some r"
      by (rule find_append_first)
    then show "last_best g pref compare hp man = Some r"
      unfolding last_best_def cs by simp
  }
  {
    assume swo: "strict_weak_order compare"
    then have irr: "\<And>x. \<not> compare x x"
      and ntr: "\<And>x y z. \<not> compare x y \<Longrightarrow> \<not> compare y z \<Longrightarrow> \<not> compare x z"
      unfolding strict_weak_order_def by blast+
    from sel have res': "snd (best_woman g pref compare hp man (out_edges g man) (0, None)) = Some r"
      by (simp add: current_prefered_relation_def)
    have "\<exists>ys zs. [] @ out_edges g man = ys @ r # zs \<and> eligible g hp man r
        \<and> (\<forall>e\<in>set ys. eligible g hp man e \<longrightarrow> compare (pref r) (pref e))
        \<and> (\<forall>e\<in>set ([] @ out_edges g man). eligible g hp man e \<longrightarrow> \<not> compare (pref e) (pref r))"
      by (rule best_woman_scan [OF irr tr' ntr res']) simp_all
    then obtain ys' zs' where
      es': "out_edges g man = ys' @ r # zs'"
      and before: "\<forall>e\<in>set ys'. eligible g hp man e \<longrightarrow> compare (pref r) (pref e)"
      and best: "\<forall>e\<in>set (out_edges g man). eligible g hp man e \<longrightarrow> \<not> compare (pref e) (pref r)"
      by auto
    have cs': "candidates g hp man
            = filter (eligible g hp man) ys' @ r # filter (eligible g hp man) zs'"
      using es' el by (simp add: candidates_def)
    have "\<not> unbeaten g pref compare hp man y" if "y \<in> set (filter (eligible g hp man) ys')" for y
    proof -
      from that before have "compare (pref r) (pref y)" by simp
      moreover from that best es' have "\<not> compare (pref y) (pref r)" by simp
      ultimately have "better compare (pref r) (pref y)" by (simp add: better_def)
      with cand show ?thesis
        unfolding unbeaten_def list_all_iff by blast
    qed
    with unb have "find (unbeaten g pref compare hp man)
            (filter (eligible g hp man) ys' @ r # filter (eligible g hp man) zs') = Some r"
      by (rule find_append_first)
    then show "first_best g pref compare hp man = Some r"
      unfolding first_best_def cs' .
  }
qed

theorem proposal_is_best_witness:
  "transitive_policy (>) \<and> strict_weak_order (>)
   \<and> current_prefered_relation test_graph map_preferences (>) (\<lambda>e. e = (1, 4)) 1 = Some (1, 3)
   \<and> (1, 3) \<in> set (candidates test_graph (\<lambda>e. e = (1, 4)) 1)
   \<and> unbeaten test_graph map_preferences (>) (\<lambda>e. e = (1, 4)) 1 (1, 3)
   \<and> first_best test_graph map_preferences (>) (\<lambda>e. e = (1, 4)) 1 = Some (1, 3)
   \<and> transitive_policy (\<ge>) \<and> total_policy (\<ge>)
   \<and> current_prefered_relation test_graph map_preferences (\<ge>) (\<lambda>e. e = (1, 4)) 1 = Some (1, 5)
   \<and> (1, 5) \<in> set (candidates test_graph (\<lambda>e. e = (1, 4)) 1)
   \<and> unbeaten test_graph map_preferences (\<ge>) (\<lambda>e. e = (1, 4)) 1 (1, 5)
   \<and> last_best test_graph map_preferences (\<ge>) (\<lambda>e. e = (1, 4)) 1 = Some (1, 5)"
proof -
  have c: "current_prefered_relation test_graph map_preferences (>) (\<lambda>e. e = (1, 4)) 1 = Some (1, 3)"
    by code_simp
  have d: "current_prefered_relation test_graph map_preferences (\<ge>) (\<lambda>e. e = (1, 4)) 1 = Some (1, 5)"
    by code_simp
  from proposal_is_best [OF transitive_policy_greater c]
    proposal_is_best [OF transitive_policy_greater_equal d]
    c d strict_weak_order_greater total_policy_greater_equal
    transitive_policy_greater transitive_policy_greater_equal
  show ?thesis by blast
qed

text \<open>
  C6 as stated fails for the comparator of the test: once person 1 has proposed to
  person 4, his relations to 3 and to 5 both have score 2; the scan with
  \<open>greater_equal\<close> ends on the last of them, not the first.
\<close>

theorem first_encountered_counterexample:
  "current_prefered_relation test_graph map_preferences (\<ge>) (\<lambda>e. e = (1, 4)) 1 = Some (1, 5)
   \<and> first_best test_graph map_preferences (\<ge>) (\<lambda>e. e = (1, 4)) 1 = Some (1, 3)"
  by code_simp

section \<open>Stability where the policy agrees with the built-in comparison\<close>

lemma proposals_soundD1:
  "proposals_sound g pref color s \<Longrightarrow> color m = black_color \<Longrightarrow> (m, w) \<in> set (edges g) \<Longrightarrow>
   has_proposed_map s (m, w) \<Longrightarrow>
   \<exists>q. (w, q) \<in> set (edges g) \<and> engaged_to_map s (w, q) \<and> pref (w, m) \<le> pref (w, q)"
  unfolding proposals_sound_def by blast

lemma proposals_soundD2:
  "proposals_sound g pref color s \<Longrightarrow> color m = black_color \<Longrightarrow> (m, r) \<in> set (edges g) \<Longrightarrow>
   engaged_to_map s (m, r) \<Longrightarrow> (m, r') \<in> set (edges g) \<Longrightarrow> (r', m) \<in> set (edges g) \<Longrightarrow>
   pref (m, r) < pref (m, r') \<Longrightarrow> has_proposed_map s (m, r')"
  unfolding proposals_sound_def by blast

lemma best_woman_max:
  assumes gt: "\<And>x y. x > y \<Longrightarrow> compare x y" and ge: "\<And>x y. compare x y \<Longrightarrow> x \<ge> y"
  shows "best_woman g pref compare hp man rs (c, b) = (c', b') \<Longrightarrow>
     c \<le> c' \<and> (\<forall>e\<in>set rs. eligible g hp man e \<longrightarrow> pref e \<le> c')
     \<and> (b' = b \<and> c' = c \<or> (\<exists>r\<in>set rs. b' = Some r \<and> c' = pref r))"
proof (induction rs arbitrary: c b)
  case Nil
  then show ?case by simp
next
  case (Cons x xs)
  show ?case
  proof (cases "eligible g hp man x \<and> compare (pref x) c")
    case True
    then have "best_woman g pref compare hp man xs (pref x, Some x) = (c', b')"
      using Cons.prems by (simp add: eligible_def)
    from Cons.IH [OF this] have
      ih: "pref x \<le> c'" "\<forall>e\<in>set xs. eligible g hp man e \<longrightarrow> pref e \<le> c'"
        "b' = Some x \<and> c' = pref x \<or> (\<exists>r\<in>set xs. b' = Some r \<and> c' = pref r)"
      by simp_all
    from True ge have "c \<le> pref x" by blast
    with ih(1) have "c \<le> c'" by simp
    moreover have "\<forall>e\<in>set (x # xs). eligible g hp man e \<longrightarrow> pref e \<le> c'"
      using ih(1,2) by simp
    moreover have "b' = b \<and> c' = c \<or> (\<exists>r\<in>set (x # xs). b' = Some r \<and> c' = pref r)"
      using ih(3) by auto
    ultimately show ?thesis by blast
  next
    case False
    then have "best_woman g pref compare hp man xs (c, b) = (c', b')"
      using Cons.prems by (auto simp: eligible_def)
    from Cons.IH [OF this] have
      ih: "c \<le> c'" "\<forall>e\<in>set xs. eligible g hp man e \<longrightarrow> pref e \<le> c'"
        "b' = b \<and> c' = c \<or> (\<exists>r\<in>set xs. b' = Some r \<and> c' = pref r)"
      by simp_all
    have "pref x \<le> c'" if "eligible g hp man x"
    proof -
      from that False have "\<not> compare (pref x) c" by simp
      with gt have "pref x \<le> c" by (meson not_le)
      with ih(1) show ?thesis by simp
    qed
    with ih(2) have "\<forall>e\<in>set (x # xs). eligible g hp man e \<longrightarrow> pref e \<le> c'" by simp
    moreover have "b' = b \<and> c' = c \<or> (\<exists>r\<in>set (x # xs). b' = Some r \<and> c' = pref r)"
      using ih(3) by auto
    ultimately show ?thesis using ih(1) by blast
  qed
qed

lemma current_prefered_relation_max:
  assumes "agrees_with_greater compare"
    and sel: "current_prefered_relation g pref compare hp man = Some r"
    and e: "(man, w) \<in> set (edges g)" "(w, man) \<in> set (edges g)" "\<not> hp (man, w)"
  shows "pref (man, w) \<le> pref r"
proof -
  from assms(1) have gt: "\<And>x y. x > y \<Longrightarrow> compare x y" and ge: "\<And>x y. compare x y \<Longrightarrow> x \<ge> y"
    unfolding agrees_with_greater_def by blast+
  obtain c' b' where res: "best_woman g pref compare hp man (out_edges g man) (0, None) = (c', b')"
    by (cases "best_woman g pref compare hp man (out_edges g man) (0, None)")
  with sel have b': "b' = Some r" by (simp add: current_prefered_relation_def)
  from best_woman_max [OF gt ge res] b' have
    "\<forall>e\<in>set (out_edges g man). eligible g hp man e \<longrightarrow> pref e \<le> c'" "c' = pref r"
    by auto
  moreover have "(man, w) \<in> set (out_edges g man)" "eligible g hp man (man, w)"
    using e by (simp_all add: out_edges_iff edges_iff eligible_def)
  ultimately show ?thesis by blast
qed

lemma propose_sound:
  assumes p: "propose g pref compare man s = Some s'"
    and agr: "agrees_with_greater compare"
    and inv: "consistent g color s"
    and snd: "proposals_sound g pref color s"
    and col: "proper_coloring g color"
    and man: "color man = black_color" "free_map s man"
  shows "proposals_sound g pref color s'"
  using p
proof (cases rule: propose_cases)
  case exhausted
  then have E: "engaged_to_map s' = engaged_to_map s"
    and H: "has_proposed_map s' = has_proposed_map s"
    by simp_all
  show ?thesis using snd unfolding proposals_sound_def E H .
next
  case (accepted w)
  have E: "engaged_to_map s' = (engaged_to_map s)((man, w) := True, (w, man) := True)"
    and H: "has_proposed_map s' = (has_proposed_map s)((man, w) := True)"
    by (simp_all add: accepted(6))
  have ne: "w \<noteq> man" and wcol: "color w \<noteq> black_color"
    using proper_coloringD [OF col accepted(2)] man(1) by auto
  have keep: "engaged_to_map s' e" if "engaged_to_map s e" for e
    using that by (simp add: E)
  have new: "engaged_to_map s' (w, man)" "engaged_to_map s' (man, w)"
    by (simp_all add: E)
  have old: "engaged_to_map s e" if "engaged_to_map s' e" "e \<noteq> (man, w)" "e \<noteq> (w, man)" for e
    using that by (simp add: E split: if_splits)
  show ?thesis
    unfolding proposals_sound_def
  proof (intro conjI allI impI)
    fix m w0
    assume h: "color m = black_color \<and> (m, w0) \<in> set (edges g) \<and> has_proposed_map s' (m, w0)"
    show "\<exists>q. (w0, q) \<in> set (edges g) \<and> engaged_to_map s' (w0, q) \<and> pref (w0, m) \<le> pref (w0, q)"
    proof (cases "(m, w0) = (man, w)")
      case True
      with accepted(3) new(1) show ?thesis by auto
    next
      case False
      with h have "has_proposed_map s (m, w0)" by (simp add: H)
      from proposals_soundD1 [OF snd _ _ this] h obtain q where
        "(w0, q) \<in> set (edges g)" "engaged_to_map s (w0, q)" "pref (w0, m) \<le> pref (w0, q)"
        by blast
      with keep show ?thesis by blast
    qed
  next
    fix m r r'
    assume h: "color m = black_color \<and> (m, r) \<in> set (edges g) \<and> engaged_to_map s' (m, r)
          \<and> (m, r') \<in> set (edges g) \<and> (r', m) \<in> set (edges g) \<and> pref (m, r) < pref (m, r')"
    show "has_proposed_map s' (m, r')"
    proof (cases "(m, r) = (man, w)")
      case True
      have "has_proposed_map s (man, r')"
      proof (rule ccontr)
        assume "\<not> has_proposed_map s (man, r')"
        from current_prefered_relation_max [OF agr accepted(1) _ _ this] h True
        show False by auto
      qed
      with True show ?thesis by (simp add: H)
    next
      case False
      moreover have "(m, r) \<noteq> (w, man)" using h wcol by auto
      ultimately have "engaged_to_map s (m, r)" using h old by blast
      from proposals_soundD2 [OF snd _ _ this] h have "has_proposed_map s (m, r')" by blast
      then show ?thesis by (simp add: H)
    qed
  qed
next
  case (rejected w prev)
  have E: "engaged_to_map s' = engaged_to_map s"
    and H: "has_proposed_map s' = (has_proposed_map s)((man, w) := True)"
    by (simp_all add: rejected(10))
  show ?thesis
    unfolding proposals_sound_def E
  proof (intro conjI allI impI)
    fix m w0
    assume h: "color m = black_color \<and> (m, w0) \<in> set (edges g) \<and> has_proposed_map s' (m, w0)"
    show "\<exists>q. (w0, q) \<in> set (edges g) \<and> engaged_to_map s (w0, q) \<and> pref (w0, m) \<le> pref (w0, q)"
    proof (cases "(m, w0) = (man, w)")
      case True
      with rejected(7,8,9) show ?thesis by auto
    next
      case False
      with h have "has_proposed_map s (m, w0)" by (simp add: H)
      from proposals_soundD1 [OF snd _ _ this] h show ?thesis by blast
    qed
  next
    fix m r r'
    assume h: "color m = black_color \<and> (m, r) \<in> set (edges g) \<and> engaged_to_map s (m, r)
          \<and> (m, r') \<in> set (edges g) \<and> (r', m) \<in> set (edges g) \<and> pref (m, r) < pref (m, r')"
    from proposals_soundD2 [OF snd, of m r r'] h have "has_proposed_map s (m, r')" by blast
    then show "has_proposed_map s' (m, r')" by (simp add: H)
  qed
next
  case (displaced w prev)
  have E: "engaged_to_map s' = (engaged_to_map s)
             ((man, w) := True, (w, man) := True, (w, prev) := False, (prev, w) := False)"
    and H: "has_proposed_map s' = (has_proposed_map s)((man, w) := True)"
    by (simp_all add: displaced(11))
  have prev: "engaged_to_map s (prev, w)" "\<not> free_map s prev"
    using consistentD1 [OF inv displaced(7,8)] consistentD1 [OF inv displaced(10)] by auto
  have wcol: "color w \<noteq> black_color" and pcol: "color prev = black_color"
    using proper_coloringD [OF col displaced(2)] proper_coloringD [OF col displaced(7)] man(1)
    by auto
  have ne: "prev \<noteq> man" "w \<noteq> man" "prev \<noteq> w"
    using prev man displaced(5) wcol pcol by auto
  have new: "engaged_to_map s' (w, man)" "engaged_to_map s' (man, w)"
    using ne by (simp_all add: E)
  have keep: "engaged_to_map s' e" if "engaged_to_map s e" "e \<noteq> (w, prev)" "e \<noteq> (prev, w)" for e
    using that by (simp add: E)
  have old: "engaged_to_map s e" if "engaged_to_map s' e" "e \<noteq> (man, w)" "e \<noteq> (w, man)" for e
    using that by (simp add: E split: if_splits)
  show ?thesis
    unfolding proposals_sound_def
  proof (intro conjI allI impI)
    fix m w0
    assume h: "color m = black_color \<and> (m, w0) \<in> set (edges g) \<and> has_proposed_map s' (m, w0)"
    show "\<exists>q. (w0, q) \<in> set (edges g) \<and> engaged_to_map s' (w0, q) \<and> pref (w0, m) \<le> pref (w0, q)"
    proof (cases "(m, w0) = (man, w)")
      case True
      with displaced(3) new(1) show ?thesis by auto
    next
      case False
      with h have "has_proposed_map s (m, w0)" by (simp add: H)
      from proposals_soundD1 [OF snd _ _ this] h obtain q where
        q: "(w0, q) \<in> set (edges g)" "engaged_to_map s (w0, q)" "pref (w0, m) \<le> pref (w0, q)"
        by blast
      have w0col: "color w0 \<noteq> black_color"
        using proper_coloringD [OF col, of m w0] h by auto
      show ?thesis
      proof (cases "w0 = w")
        case True
        with q consistentD2 [OF inv _ displaced(7) _ displaced(8), of q] have "q = prev" by simp
        with q True displaced(9) have "pref (w, m) \<le> pref (w, man)" by simp
        with True displaced(3) new(1) show ?thesis by blast
      next
        case w0: False
        then have "(w0, q) \<noteq> (w, prev)" by simp
        moreover have "(w0, q) \<noteq> (prev, w)" using w0col pcol by auto
        ultimately have "engaged_to_map s' (w0, q)" using q(2) keep by blast
        with q show ?thesis by blast
      qed
    qed
  next
    fix m r r'
    assume h: "color m = black_color \<and> (m, r) \<in> set (edges g) \<and> engaged_to_map s' (m, r)
          \<and> (m, r') \<in> set (edges g) \<and> (r', m) \<in> set (edges g) \<and> pref (m, r) < pref (m, r')"
    show "has_proposed_map s' (m, r')"
    proof (cases "(m, r) = (man, w)")
      case True
      have "has_proposed_map s (man, r')"
      proof (rule ccontr)
        assume "\<not> has_proposed_map s (man, r')"
        from current_prefered_relation_max [OF agr displaced(1) _ _ this] h True
        show False by auto
      qed
      with True show ?thesis by (simp add: H)
    next
      case False
      moreover have "(m, r) \<noteq> (w, man)" using h wcol by auto
      ultimately have "engaged_to_map s (m, r)" using h old by blast
      from proposals_soundD2 [OF snd _ _ this] h have "has_proposed_map s (m, r')" by blast
      then show ?thesis by (simp add: H)
    qed
  qed
qed

lemma proposals_sound_cong:
  "engaged_to_map s' = engaged_to_map s \<Longrightarrow> has_proposed_map s' = has_proposed_map s \<Longrightarrow>
   proposals_sound g pref color s' = proposals_sound g pref color s"
  unfolding proposals_sound_def by simp

lemma initial_state_sound: "proposals_sound g pref color (initial_state g engaged)"
proof -
  have e: "\<not> engaged_to_map (initial_state g engaged) x" if "x \<in> set (edges g)" for x
    using that by (simp add: initial_state_def foldl_clear)
  have h: "\<not> has_proposed_map (initial_state g engaged) x" for x
    by (simp add: initial_state_def)
  show ?thesis
    unfolding proposals_sound_def using e h by blast
qed

lemma iteration_sound:
  assumes it: "iteration g pref compare color s = Some s'"
    and agr: "agrees_with_greater compare"
    and inv: "consistent g color s"
    and snd: "proposals_sound g pref color s"
    and col: "proper_coloring g color"
  shows "proposals_sound g pref color s'"
proof (cases "next_free_man color (free_map s) (men_iterator s)")
  case Nil
  then have "s' = s\<lparr>men_iterator := [], every_man_is_engaged := True\<rparr>"
    using it by (simp add: iteration_def)
  with snd proposals_sound_cong [of s' s g pref color] show ?thesis by simp
next
  case (Cons man rest)
  let ?s = "s\<lparr>men_iterator := man # rest\<rparr>"
  have p: "propose g pref compare man ?s = Some s'"
    using it Cons by (simp add: iteration_def)
  have inv': "consistent g color ?s"
    using inv consistent_cong [of ?s s g color] by simp
  have snd': "proposals_sound g pref color ?s"
    using snd proposals_sound_cong [of ?s s g pref color] by simp
  from next_free_man_Cons [OF Cons] have man: "color man = black_color" "free_map ?s man"
    by simp_all
  from p agr inv' snd' col man show ?thesis by (rule propose_sound)
qed

lemma run_reaches_sound:
  assumes "run_reaches g pref compare color s0 s"
    and "agrees_with_greater compare" "proper_coloring g color"
    and "consistent g color s0" "proposals_sound g pref color s0"
  shows "consistent g color s \<and> proposals_sound g pref color s"
  using assms
proof (induction rule: run_reaches.induct)
  case start
  then show ?case by simp
next
  case (step s s')
  then have c: "consistent g color s" and p: "proposals_sound g pref color s" by simp_all
  from iteration_consistent [OF c step.prems(2), of pref compare] step.hyps(3)
  have "consistent g color s'" by simp
  moreover from step.hyps(3) step.prems(1) c p step.prems(2)
  have "proposals_sound g pref color s'" by (rule iteration_sound)
  ultimately show ?case by simp
qed

lemma better_agrees:
  assumes "agrees_with_greater compare"
  shows "better compare x y \<longleftrightarrow> y < x"
proof
  assume b: "better compare x y"
  then have "y \<le> x" using assms unfolding agrees_with_greater_def better_def by blast
  moreover have "y \<noteq> x" using b unfolding better_def by blast
  ultimately show "y < x" by simp
next
  assume l: "y < x"
  then have "compare x y" using assms unfolding agrees_with_greater_def by blast
  moreover have "\<not> compare y x"
  proof
    assume "compare y x"
    then have "x \<le> y" using assms unfolding agrees_with_greater_def by blast
    with l show False by simp
  qed
  ultimately show "better compare x y" unfolding better_def by blast
qed

text \<open>
  Where the policy agrees with the built-in comparison of line 228 (it holds whenever
  the left score is greater and only when it is greater or equal, as \<open>std::greater\<close> and
  \<open>std::greater_equal\<close> do), the engagement left by the loop has no blocking pair with an
  engaged proposer.
\<close>

theorem stable_when_compare_agrees:
  assumes agr: "agrees_with_greater compare"
    and wf: "wf_graph g" and col: "proper_coloring g color"
    and run: "main_loop g pref compare color (initial_state g engaged) = Some s"
    and p: "color p = black_color"
  shows "\<not> blocking_pair g pref compare (engaged_to_map s) p r r'"
proof
  assume b: "blocking_pair g pref compare (engaged_to_map s) p r r'"
  from main_loop_reaches [OF run run_reaches.start]
  have "run_reaches g pref compare color (initial_state g engaged) s" .
  from run_reaches_sound [OF this agr col initial_state_consistent initial_state_sound]
  have c: "consistent g color s" and ps: "proposals_sound g pref color s" by simp_all
  from b have pr: "(p, r) \<in> set (edges g)" "engaged_to_map s (p, r)"
    and pr': "(p, r') \<in> set (edges g)" "(r', p) \<in> set (edges g)"
    and pp: "pref (p, r) < pref (p, r')"
    unfolding blocking_pair_def by (simp_all add: better_agrees [OF agr])
  from b obtain q where q: "q \<in> set (adjacent g r')" "engaged_to_map s (r', q)"
    "pref (r', q) < pref (r', p)"
    unfolding blocking_pair_def list_ex_iff by (auto simp: better_agrees [OF agr])
  from proposals_soundD2 [OF ps p pr pr' pp] have "has_proposed_map s (p, r')" .
  from proposals_soundD1 [OF ps p pr'(1) this] obtain q' where
    q': "(r', q') \<in> set (edges g)" "engaged_to_map s (r', q')" "pref (r', p) \<le> pref (r', q')"
    by blast
  from q(1) have "(r', q) \<in> set (edges g)" by (simp add: edges_iff)
  from consistentD2 [OF c this q'(1) q(2) q'(2)] have "q = q'" .
  with q(3) q'(3) show False by simp
qed

theorem stable_when_compare_agrees_witness:
  "agrees_with_greater (\<ge>) \<and> wf_graph test_graph \<and> proper_coloring test_graph men_black
   \<and> (\<exists>s. main_loop test_graph map_preferences (\<ge>) men_black (initial_state test_graph (\<lambda>e. False)) = Some s
          \<and> engaged_to_map s (1, 5)
          \<and> \<not> blocking_pair test_graph map_preferences (\<ge>) (engaged_to_map s) 1 5 4)
   \<and> men_black 1 = black_color"
proof -
  have a: "agrees_with_greater (\<ge>)" by (auto simp: agrees_with_greater_def)
  have w: "wf_graph test_graph" by code_simp
  have c: "proper_coloring test_graph men_black" by code_simp
  have p: "men_black 1 = black_color" by code_simp
  from main_loop_consistent [OF initial_state_consistent c, of map_preferences "(\<ge>)" "\<lambda>e. False"]
  obtain s where s: "main_loop test_graph map_preferences (\<ge>) men_black (initial_state test_graph (\<lambda>e. False)) = Some s"
    by blast
  have "map_option (\<lambda>s. engaged_to_map s (1, 5))
          (main_loop test_graph map_preferences (\<ge>) men_black (initial_state test_graph (\<lambda>e. False)))
        = Some True"
    by code_simp
  with s have e: "engaged_to_map s (1, 5)" by simp
  from stable_when_compare_agrees [OF a w c s p, of 5 4] s e a w c p
  show ?thesis by blast
qed

section \<open>Inputs on which the run departs from the spec\<close>

text \<open>
  C1 at a failing input: with the policy \<open>std::less\<close> the engagement that
  \<open>stable_marriage\<close> leaves has a blocking pair, whichever side the partitioner makes the
  proposers. With 0 and 1 proposing, 1 is engaged to 2 but prefers 3, and 3 prefers 1
  over its partner 0; with 2 and 3 proposing, 3 is engaged to 0 but prefers 1, and 1
  prefers 3 over its partner 2.
\<close>

theorem unstable_with_less:
  "map_option (\<lambda>m. (engaged_relations m,
        blocking_pair two_graph less_preferences (<) (the_engaged_to_map m) 1 2 3))
     (stable_marriage (is_bipartite black_color) (<) less_memory)
   = Some ([(0, 3), (1, 2), (2, 1), (3, 0)], True)
   \<and> map_option (\<lambda>m. (engaged_relations m,
        blocking_pair two_graph less_preferences (<) (the_engaged_to_map m) 3 0 1))
     (stable_marriage (is_bipartite white_color) (<) less_memory)
   = Some ([(0, 3), (1, 2), (2, 1), (3, 0)], True)"
  by code_simp

text \<open>
  C4 at a failing input: on the complete instance, with \<open>std::greater\<close>, only one couple
  is engaged when \<open>stable_marriage\<close> returns, whichever side proposes: 0 and 2 have no
  engaged relation. The proposer displaced by the second proposal is marked free again
  (line 251) but the iterator has passed him and is never reset, so the loop ends while
  he has not proposed to the reviewer who is still free.
\<close>

theorem complete_instance_leaves_people_free:
  "map_option (\<lambda>m. (engaged_relations m,
        unengaged two_graph (the_engaged_to_map m) 0, unengaged two_graph (the_engaged_to_map m) 2))
     (stable_marriage (is_bipartite black_color) (>) two_memory)
   = Some ([(1, 3), (3, 1)], True, True)
   \<and> map_option (\<lambda>m. (engaged_relations m,
        unengaged two_graph (the_engaged_to_map m) 0, unengaged two_graph (the_engaged_to_map m) 2))
     (stable_marriage (is_bipartite white_color) (>) two_memory)
   = Some ([(1, 3), (3, 1)], True, True)
   \<and> map_option (\<lambda>s. (free_map s 0, has_proposed_map s (0, 2), men_iterator s))
     (main_loop two_graph two_preferences (>)
        (snd (is_bipartite black_color two_graph (\<lambda>v. white_color)))
        (initial_state two_graph (\<lambda>e. False)))
   = Some (True, False, [])"
  by code_simp

text \<open>
  C7 at a failing input: policy \<open>std::less\<close>, 0 and 1 proposing. After the first
  iteration 3 is engaged to 0. In the second iteration 1 proposes to 3, and 3's score
  for 1 is strictly better under the policy than its score for 0; yet the engagement of
  3 with 0 stands and 1 stays free, because line 228 compares with the built-in
  \<open>operator>\<close> and not with \<open>compare\<close>.
\<close>

theorem reviewer_ignores_compare:
  "(case iteration two_graph less_preferences (<)
           (snd (is_bipartite black_color two_graph (\<lambda>v. white_color)))
           (initial_state two_graph (\<lambda>e. False)) of
      None \<Rightarrow> False
    | Some s1 \<Rightarrow>
        engaged_to_map s1 (3, 0) \<and> \<not> free_map s1 3 \<and> free_map s1 1
        \<and> current_prefered_relation two_graph less_preferences (<) (has_proposed_map s1) 1 = Some (1, 3)
        \<and> better (<) (less_preferences (3, 1)) (less_preferences (3, 0))
        \<and> (case iteration two_graph less_preferences (<)
                  (snd (is_bipartite black_color two_graph (\<lambda>v. white_color))) s1 of
              None \<Rightarrow> False
            | Some s2 \<Rightarrow>
                has_proposed_map s2 (1, 3) \<and> engaged_to_map s2 (3, 0) \<and> engaged_to_map s2 (0, 3)
                \<and> \<not> engaged_to_map s2 (3, 1) \<and> \<not> engaged_to_map s2 (1, 3)
                \<and> free_map s2 1 \<and> \<not> free_map s2 0))"
  by code_simp

section \<open>What a call reads and writes\<close>

lemma propose_outside:
  assumes "propose g pref compare man s = Some s'" "e \<notin> set (edges g)"
  shows "engaged_to_map s' e = engaged_to_map s e"
  using assms(1)
proof (cases rule: propose_cases)
  case exhausted
  then show ?thesis by simp
next
  case (accepted w)
  then have "e \<noteq> (man, w)" "e \<noteq> (w, man)" using assms(2) by auto
  then show ?thesis by (simp add: accepted(6))
next
  case (rejected w prev)
  then show ?thesis by simp
next
  case (displaced w prev)
  then have "e \<noteq> (man, w)" "e \<noteq> (w, man)" "e \<noteq> (w, prev)" "e \<noteq> (prev, w)"
    using assms(2) by auto
  then show ?thesis by (simp add: displaced(11))
qed

lemma iteration_outside:
  assumes "iteration g pref compare color s = Some s'" "e \<notin> set (edges g)"
  shows "engaged_to_map s' e = engaged_to_map s e"
proof (cases "next_free_man color (free_map s) (men_iterator s)")
  case Nil
  with assms show ?thesis by (auto simp: iteration_def)
next
  case (Cons man rest)
  with assms(1) have "propose g pref compare man (s\<lparr>men_iterator := man # rest\<rparr>) = Some s'"
    by (simp add: iteration_def)
  from propose_outside [OF this assms(2)] show ?thesis by simp
qed

lemma run_reaches_outside:
  assumes "run_reaches g pref compare color s0 s" "e \<notin> set (edges g)"
  shows "engaged_to_map s e = engaged_to_map s0 e"
  using assms
proof (induction rule: run_reaches.induct)
  case start
  show ?case by simp
next
  case (step s s')
  from iteration_outside [OF step.hyps(3) step.prems] step.IH [OF step.prems]
  show ?case by simp
qed

text \<open>
  C9 (amended): a call that returns leaves the graph and the preference scores as they
  were and changes no engaged flag outside the relations of the graph; the labels after
  the call are the ones the partitioner wrote, not the ones the caller supplied.
\<close>

theorem stable_marriage_frame:
  assumes "stable_marriage partitioner compare m = Some m'"
  shows "the_graph m' = the_graph m
       \<and> the_preference_map m' = the_preference_map m
       \<and> the_color_map m' = snd (partitioner (the_graph m) (the_color_map m))
       \<and> (\<forall>e. e \<notin> set (edges (the_graph m)) \<longrightarrow> the_engaged_to_map m' e = the_engaged_to_map m e)"
proof -
  let ?g = "the_graph m"
  let ?color = "snd (partitioner ?g (the_color_map m))"
  let ?s0 = "initial_state ?g (the_engaged_to_map m)"
  from assms obtain s' where
    s': "main_loop ?g (the_preference_map m) compare ?color ?s0 = Some s'"
      "m' = m\<lparr>the_engaged_to_map := engaged_to_map s', the_color_map := ?color\<rparr>"
    by (auto simp: stable_marriage_def Let_def split: option.splits)
  from main_loop_reaches [OF s'(1) run_reaches.start]
  have r: "run_reaches ?g (the_preference_map m) compare ?color ?s0 s'" .
  have "engaged_to_map s' e = the_engaged_to_map m e" if "e \<notin> set (edges ?g)" for e
    using run_reaches_outside [OF r that] that
    by (simp add: initial_state_def foldl_clear)
  with s'(2) show ?thesis by simp
qed

theorem stable_marriage_frame_witness:
  "(\<exists>m'. stable_marriage (is_bipartite black_color) (\<ge>)
            (test_memory (\<lambda>e. True) (\<lambda>v. white_color)) = Some m'
         \<and> the_graph m' = test_graph
         \<and> the_preference_map m' = map_preferences
         \<and> the_color_map m' = snd (is_bipartite black_color test_graph (\<lambda>v. white_color))
         \<and> the_engaged_to_map m' (0, 1))
   \<and> (0, 1) \<notin> set (edges test_graph)"
proof -
  let ?m = "test_memory (\<lambda>e. True) (\<lambda>v. white_color)"
  have "map_option engaged_relations (stable_marriage (is_bipartite black_color) (\<ge>) ?m) \<noteq> None"
    by code_simp
  then obtain m' where m': "stable_marriage (is_bipartite black_color) (\<ge>) ?m = Some m'"
    by auto
  have e: "(0, 1) \<notin> set (edges test_graph)" by code_simp
  from stable_marriage_frame [OF m'] e
  have "the_graph m' = test_graph \<and> the_preference_map m' = map_preferences
      \<and> the_color_map m' = snd (is_bipartite black_color test_graph (\<lambda>v. white_color))
      \<and> the_engaged_to_map m' (0, 1)"
    by (simp add: test_memory_def)
  with m' e show ?thesis by blast
qed

text \<open>
  C9 as stated fails: on the instance of the test with every label white before the
  call, person 0 (seed black) or person 3 (seed white) is black after it.
\<close>

theorem labels_are_overwritten:
  "the_color_map (test_memory (\<lambda>e. False) (\<lambda>v. white_color)) 0 = white_color
   \<and> map_option (\<lambda>m'. the_color_map m' 0)
       (stable_marriage (is_bipartite black_color) (\<ge>) (test_memory (\<lambda>e. False) (\<lambda>v. white_color)))
     = Some black_color
   \<and> the_color_map (test_memory (\<lambda>e. False) (\<lambda>v. white_color)) 3 = white_color
   \<and> map_option (\<lambda>m'. the_color_map m' 3)
       (stable_marriage (is_bipartite white_color) (\<ge>) (test_memory (\<lambda>e. False) (\<lambda>v. white_color)))
     = Some black_color"
  by code_simp

text \<open>
  C3 (amended): \<open>stable_marriage\<close> does not consult the verdict of the partitioner. For
  every input, 2-colourable or not, its outcome is that of the main loop run on the
  labels the partitioner left, the loop enters its first iteration, and replacing the
  verdict by any other changes nothing. No failure is reported to the caller.
\<close>

theorem verdict_is_dropped:
  "stable_marriage partitioner compare m
     = stable_marriage (\<lambda>g c. (verdict, snd (partitioner g c))) compare m
   \<and> stable_marriage partitioner compare m
     = map_option
         (\<lambda>s. m\<lparr>the_engaged_to_map := engaged_to_map s,
                the_color_map := snd (partitioner (the_graph m) (the_color_map m))\<rparr>)
         (main_loop (the_graph m) (the_preference_map m) compare
            (snd (partitioner (the_graph m) (the_color_map m)))
            (initial_state (the_graph m) (the_engaged_to_map m)))
   \<and> main_loop g pref compare color (initial_state g engaged)
     = (case iteration g pref compare color (initial_state g engaged) of
          None \<Rightarrow> None
        | Some s' \<Rightarrow> main_loop g pref compare color s')"
proof (intro conjI)
  show "stable_marriage partitioner compare m
     = stable_marriage (\<lambda>g c. (verdict, snd (partitioner g c))) compare m"
    by (simp add: stable_marriage_def)
  show "stable_marriage partitioner compare m
     = map_option
         (\<lambda>s. m\<lparr>the_engaged_to_map := engaged_to_map s,
                the_color_map := snd (partitioner (the_graph m) (the_color_map m))\<rparr>)
         (main_loop (the_graph m) (the_preference_map m) compare
            (snd (partitioner (the_graph m) (the_color_map m)))
            (initial_state (the_graph m) (the_engaged_to_map m)))"
    by (simp add: stable_marriage_def Let_def split: option.split)
  show "main_loop g pref compare color (initial_state g engaged)
     = (case iteration g pref compare color (initial_state g engaged) of
          None \<Rightarrow> None
        | Some s' \<Rightarrow> main_loop g pref compare color s')"
    by (subst main_loop.simps) (simp add: initial_state_def)
qed

text \<open>
  C3 as stated fails: on the triangle the partitioner reports that the graph is not
  bipartite, and \<open>stable_marriage\<close> returns normally with persons 0 and 1 engaged.
\<close>

theorem odd_cycle_is_matched:
  "\<not> fst (is_bipartite black_color triangle_graph (the_color_map triangle_memory))
   \<and> map_option engaged_relations
       (stable_marriage (is_bipartite black_color) (>) triangle_memory)
     = Some [(0, 1), (1, 0)]"
  by code_simp

section \<open>The helper \<open>is_engaged\<close>\<close>

text \<open>
  C10: for every vertex, \<open>is_engaged\<close> returns a pair whose boolean is true; when no
  out-edge of the vertex has its engaged flag set, the pair is the default-constructed
  vertex with true, so the boolean does not tell an engaged person from a free one.
\<close>

theorem is_engaged_always_true:
  "snd (is_engaged v g engaged)
   \<and> (find engaged (out_edges g v) = None \<longrightarrow> is_engaged v g engaged = (null_vertex, True))"
  by (simp add: is_engaged_def split: option.split)

theorem is_engaged_always_true_witness:
  "find (\<lambda>e. False) (out_edges test_graph 4) = None
   \<and> is_engaged 4 test_graph (\<lambda>e. False) = (null_vertex, True)"
proof -
  have h: "find (\<lambda>e. False) (out_edges test_graph 4) = None"
    by (simp add: find_None_iff)
  from is_engaged_always_true [of 4 test_graph "\<lambda>e. False"] h show ?thesis
    by simp
qed

section \<open>The test scenario\<close>

text \<open>
  C2: on the instance of the test, with the comparator \<open>greater_equal\<close>, the relations
  left engaged are exactly both directions of (0,4), (1,5) and (2,3), that is (P0,R1),
  (P1,R2) and (P2,R0); every other relation of the graph ends not engaged. This holds
  whatever the engagement and colour storage held before the call, and for both choices
  of the partitioner's seed colour (people 0, 1, 2 black, or people 3, 4, 5 black).
\<close>

theorem three_men_three_women:
  "map_option engaged_relations
     (stable_marriage (is_bipartite black_color) (\<ge>) (test_memory map_engaged color_map))
   = Some [(0, 4), (1, 5), (2, 3), (3, 2), (4, 0), (5, 1)]
   \<and> map_option engaged_relations
     (stable_marriage (is_bipartite white_color) (\<ge>) (test_memory map_engaged color_map))
   = Some [(0, 4), (1, 5), (2, 3), (3, 2), (4, 0), (5, 1)]"
  by code_simp

end
